theory Spec2Isabelle
  imports Main "HOL-Library.Word" "HOL-Library.Multiset"
begin

unbundle bit_operations_syntax

section \<open>The logit debug probe of \<^verbatim>\<open>cpp/support/debug_utils.h\<close>\<close>

subsection \<open>Data model\<close>

text \<open>
  A \<^verbatim>\<open>float\<close> is kept as its IEEE-754 binary32 bit pattern. The report takes the float
  operations it uses as a record \<open>fpu\<close>; comparisons are defined on the bits below, and
  \<open>binary32\<close> gives the addition, the division and the conversion from \<^verbatim>\<open>int\<close>, leaving only
  the stream formatting of a float open.
\<close>

type_synonym f32 = "32 word"

record fpu =
  fadd :: "f32 \<Rightarrow> f32 \<Rightarrow> f32"
  fdiv :: "f32 \<Rightarrow> f32 \<Rightarrow> f32"
  f32_of_int :: "int \<Rightarrow> f32"
  put_fixed4 :: "f32 \<Rightarrow> string"

text \<open>
  Modelled from the spec: the \<^verbatim>\<open>Tokenizer\<close> reference of \<^verbatim>\<open>tokenizers/tokenizers.h\<close>
  (not part of the sources at hand). The spec calls it a shared, optionally-absent object
  exposing one operation, from a token id to its display string, which may raise. A
  reference is \<open>None\<close> when undefined; a default-constructed reference is undefined.
\<close>

datatype exn = Exn string

datatype tokenizer_obj = TokenizerObj (IdToToken: "int \<Rightarrow> exn + string")

type_synonym Tokenizer = "tokenizer_obj option"

definition defined :: "Tokenizer \<Rightarrow> bool" where
  "defined t = (t \<noteq> None)"

text \<open>
  Modelled from the spec: the \<^verbatim>\<open>NDArray\<close> of the tensor library (not part of the sources at
  hand): shape accessors, a host copy, and raw element access as 32-bit floats, here a
  flat row-major buffer.
\<close>

datatype device = CPU | Accelerator nat

record NDArray =
  shape :: "int list"
  data :: "f32 list"
  dev :: device

text \<open>
  The state of the process that the probe reads and writes: the environment, the
  \<^verbatim>\<open>DebugRegistry\<close> singleton, the bytes written to \<^verbatim>\<open>std::cout\<close>, and the number of
  \<^verbatim>\<open>CopyTo\<close> calls made on tensors.
\<close>

record DebugRegistry =
  tokenizer :: Tokenizer

record process =
  environ :: "string \<rightharpoonup> string"
  registry :: DebugRegistry
  cout :: string
  copies :: nat

text \<open>The registry before any registration: the static local of \<^verbatim>\<open>Global()\<close>, default-constructed.\<close>

definition Global_init :: DebugRegistry where
  "Global_init = \<lparr>tokenizer = None\<rparr>"

definition startup :: "(string \<rightharpoonup> string) \<Rightarrow> process" where
  "startup e = \<lparr>environ = e, registry = Global_init, cout = [], copies = 0\<rparr>"

datatype fault = OutOfBounds | IntOverflow

subsection \<open>Decoder registry\<close>

definition DebugRegisterTokenizer :: "Tokenizer \<Rightarrow> process \<Rightarrow> process" where
  "DebugRegisterTokenizer t p = p\<lparr>registry := (registry p)\<lparr>tokenizer := t\<rparr>\<rparr>"

definition DebugGetTokenizer :: "process \<Rightarrow> Tokenizer" where
  "DebugGetTokenizer p = tokenizer (registry p)"

subsection \<open>Activation gate\<close>

definition getenv :: "process \<Rightarrow> string \<Rightarrow> string option" where
  "getenv p name = environ p name"

definition IsLogitDebugEnabled :: "process \<Rightarrow> bool" where
  "IsLogitDebugEnabled p = (getenv p ''MLC_DEBUG_LOGITS'' \<noteq> None)"

definition IsLogitDebugVerbose :: "process \<Rightarrow> bool" where
  "IsLogitDebugVerbose p =
     (case getenv p ''MLC_DEBUG_LOGITS'' of
        None \<Rightarrow> False
      | Some debug_level \<Rightarrow> debug_level = ''verbose'')"

subsection \<open>Text output\<close>

definition digit_char :: "int \<Rightarrow> char" where
  "digit_char d = char_of (nat (48 + d))"

function put_dec :: "int \<Rightarrow> string" where
  "put_dec n = (if n < 10 then [digit_char n] else put_dec (n div 10) @ [digit_char (n mod 10)])"
  by pat_completeness auto
termination
  by (relation "measure nat") auto

declare put_dec.simps [simp del]

text \<open>\<^verbatim>\<open>std::to_string\<close> and \<^verbatim>\<open>operator<<\<close> of an \<^verbatim>\<open>int\<close>, in decimal.\<close>

definition to_string :: "int \<Rightarrow> string" where
  "to_string i = (if i < 0 then CHR ''-'' # put_dec (- i) else put_dec i)"

text \<open>\<^verbatim>\<open>std::endl\<close> writes a newline; the flush is not a change of the text written.\<close>

definition endl :: string where
  "endl = [CHR 0x0A]"

text \<open>
  The value of a \<^verbatim>\<open>char\<close> in a comparison with an \<^verbatim>\<open>int\<close>. Whether \<^verbatim>\<open>char\<close> is signed is
  the platform's choice, so the escaping step is given both readings.
\<close>

definition char_value :: "bool \<Rightarrow> char \<Rightarrow> int" where
  "char_value is_signed c =
     (if is_signed \<and> 128 \<le> (of_char c :: nat) then int (of_char c) - 256 else int (of_char c))"

definition unsigned_char :: "char \<Rightarrow> int" where
  "unsigned_char c = int (of_char c)"

definition escape_char :: "bool \<Rightarrow> char \<Rightarrow> string" where
  "escape_char is_signed c =
     (if c = CHR 0x0A then [CHR 0x5C, CHR ''n'']
      else if c = CHR 0x09 then [CHR 0x5C, CHR ''t'']
      else if c = CHR 0x0D then [CHR 0x5C, CHR ''r'']
      else if char_value is_signed c < 32 \<or> char_value is_signed c > 126
        then [CHR 0x5C, CHR ''x''] @ to_string (unsigned_char c)
      else [c])"

fun escape_token :: "bool \<Rightarrow> string \<Rightarrow> string" where
  "escape_token is_signed [] = []"
| "escape_token is_signed (c # cs) = escape_char is_signed c @ escape_token is_signed cs"

subsection \<open>Float comparison\<close>

text \<open>
  \<^verbatim>\<open>a < b\<close> on binary32: false when either side is a NaN; otherwise the order of the
  sign-magnitude readings of the bit patterns (the two zeros compare equal).
\<close>

definition magnitude :: "f32 \<Rightarrow> f32" where
  "magnitude x = x AND 0x7FFFFFFF"

definition isnan :: "f32 \<Rightarrow> bool" where
  "isnan x = (0x7F800000 < magnitude x)"

definition f32_key :: "f32 \<Rightarrow> int" where
  "f32_key x = (if bit x 31 then - uint (magnitude x) else uint (magnitude x))"

definition f32_less :: "f32 \<Rightarrow> f32 \<Rightarrow> bool" where
  "f32_less a b = (\<not> isnan a \<and> \<not> isnan b \<and> f32_key a < f32_key b)"

definition f32_greater :: "f32 \<Rightarrow> f32 \<Rightarrow> bool" where
  "f32_greater a b = f32_less b a"

definition f32_greater_eq :: "f32 \<Rightarrow> f32 \<Rightarrow> bool" where
  "f32_greater_eq a b = (\<not> isnan a \<and> \<not> isnan b \<and> f32_key b \<le> f32_key a)"

subsection \<open>Float arithmetic\<close>

text \<open>
  Addition and division of binary32 values, rounding to nearest with ties to even, and
  the conversion of an \<^verbatim>\<open>int\<close>. A finite value is an integer multiple \<open>f32_units\<close> of the
  smallest subnormal \<open>2\<^sup>-\<^sup>1\<^sup>4\<^sup>9\<close>. A NaN operand is returned quieted, the first one first; an
  invalid operation gives the default NaN of the x86 target. Only whether a result is a
  NaN enters the properties below.
\<close>

definition sign_bit :: "f32 \<Rightarrow> bool" where
  "sign_bit x = bit x 31"

definition is_inf :: "f32 \<Rightarrow> bool" where
  "is_inf x = (magnitude x = 0x7F800000)"

definition is_zero :: "f32 \<Rightarrow> bool" where
  "is_zero x = (magnitude x = 0)"

definition f32_units :: "f32 \<Rightarrow> int" where
  "f32_units x =
     (let m = uint (magnitude x); e = m div 2 ^ 23; f = m mod 2 ^ 23;
          k = (if e = 0 then f else (2 ^ 23 + f) * 2 ^ nat (e - 1))
      in if sign_bit x then - k else k)"

function bitlen :: "int \<Rightarrow> nat" where
  "bitlen n = (if n \<le> 0 then 0 else Suc (bitlen (n div 2)))"
  by pat_completeness auto
termination
  by (relation "measure nat") auto

declare bitlen.simps [simp del]

definition with_sign :: "bool \<Rightarrow> int \<Rightarrow> f32" where
  "with_sign neg m = word_of_int (if neg then m + 2 ^ 31 else m)"

text \<open>
  The binary32 value nearest to \<open>num / den\<close> units, for \<open>num \<ge> 0\<close> and \<open>den > 0\<close>: the quotient
  is cut to 24 significant bits, rounded on the remainder, and the exponent \<open>s\<close> and the
  significand are packed by an addition, which also carries a significand rounded up to
  \<open>2\<^sup>2\<^sup>4\<close>. A value beyond the finite range becomes an infinity.
\<close>

definition f32_round :: "bool \<Rightarrow> int \<Rightarrow> int \<Rightarrow> f32" where
  "f32_round neg num den =
     (let b = bitlen (num div den);
          s = (if 24 < b then b - 24 else 0);
          d = den * 2 ^ s;
          q = num div d;
          r = num mod d;
          n = (if 2 * r < d then q else if d < 2 * r then q + 1 else if even q then q else q + 1);
          m = int s * 2 ^ 23 + n
      in with_sign neg (if 0x7F800000 \<le> m then 0x7F800000 else m))"

definition quiet :: "f32 \<Rightarrow> f32" where
  "quiet x = x OR 0x00400000"

definition default_nan :: f32 where
  "default_nan = 0xFFC00000"

definition f32_add :: "f32 \<Rightarrow> f32 \<Rightarrow> f32" where
  "f32_add a b =
     (if isnan a then quiet a
      else if isnan b then quiet b
      else if is_inf a then (if is_inf b \<and> sign_bit a \<noteq> sign_bit b then default_nan else a)
      else if is_inf b then b
      else
        (let k = f32_units a + f32_units b
         in if k = 0 then with_sign (sign_bit a \<and> sign_bit b) 0
            else f32_round (k < 0) \<bar>k\<bar> 1))"

definition f32_div :: "f32 \<Rightarrow> f32 \<Rightarrow> f32" where
  "f32_div a b =
     (let neg = (sign_bit a \<noteq> sign_bit b)
      in if isnan a then quiet a
         else if isnan b then quiet b
         else if is_inf a then (if is_inf b then default_nan else with_sign neg 0x7F800000)
         else if is_inf b then with_sign neg 0
         else if is_zero b then (if is_zero a then default_nan else with_sign neg 0x7F800000)
         else f32_round neg (\<bar>f32_units a\<bar> * 2 ^ 149) \<bar>f32_units b\<bar>)"

definition f32_of_int32 :: "int \<Rightarrow> f32" where
  "f32_of_int32 v = (if v = 0 then 0 else f32_round (v < 0) (\<bar>v\<bar> * 2 ^ 149) 1)"

text \<open>The arithmetic of the target, with the formatting of a float left open.\<close>

definition binary32 :: "(f32 \<Rightarrow> string) \<Rightarrow> fpu" where
  "binary32 fmt = \<lparr>fadd = f32_add, fdiv = f32_div, f32_of_int = f32_of_int32, put_fixed4 = fmt\<rparr>"

subsection \<open>Standard algorithms\<close>

text \<open>
  \<^verbatim>\<open>std::partial_sort(first, first + k, last, cmp)\<close>: the \<open>k\<close> first elements of the sorted
  range come to the front, in order; the standard leaves the order of the others open, and
  here they keep their relative order. \<open>extract_first\<close> scans for the first element that no
  later one precedes.
\<close>

fun extract_first :: "('a \<Rightarrow> 'a \<Rightarrow> bool) \<Rightarrow> 'a \<Rightarrow> 'a list \<Rightarrow> 'a \<times> 'a list" where
  "extract_first cmp x [] = (x, [])"
| "extract_first cmp x (y # ys) =
     (if cmp y x
      then (case extract_first cmp y ys of (b, r) \<Rightarrow> (b, x # r))
      else (case extract_first cmp x ys of (b, r) \<Rightarrow> (b, y # r)))"

fun partial_sort :: "nat \<Rightarrow> ('a \<Rightarrow> 'a \<Rightarrow> bool) \<Rightarrow> 'a list \<Rightarrow> 'a list" where
  "partial_sort 0 cmp xs = xs"
| "partial_sort (Suc k) cmp [] = []"
| "partial_sort (Suc k) cmp (x # xs) =
     (case extract_first cmp x xs of (b, r) \<Rightarrow> b # partial_sort k cmp r)"

text \<open>\<^verbatim>\<open>std::max_element\<close> and \<^verbatim>\<open>std::min_element\<close> on a non-empty range, with \<^verbatim>\<open>operator<\<close>.\<close>

fun max_element :: "f32 \<Rightarrow> f32 list \<Rightarrow> f32" where
  "max_element largest [] = largest"
| "max_element largest (x # xs) = max_element (if f32_less largest x then x else largest) xs"

fun min_element :: "f32 \<Rightarrow> f32 list \<Rightarrow> f32" where
  "min_element smallest [] = smallest"
| "min_element smallest (x # xs) = min_element (if f32_less x smallest then x else smallest) xs"

definition accumulate :: "fpu \<Rightarrow> f32 list \<Rightarrow> f32 \<Rightarrow> f32" where
  "accumulate fp xs init = foldl (fadd fp) init xs"

subsection \<open>Tensor access\<close>

definition CopyTo :: "NDArray \<Rightarrow> device \<Rightarrow> process \<Rightarrow> NDArray \<times> process" where
  "CopyTo t d p = (t\<lparr>dev := d\<rparr>, p\<lparr>copies := Suc (copies p)\<rparr>)"

text \<open>The conversion of an \<^verbatim>\<open>int64_t\<close> extent to \<^verbatim>\<open>int\<close>.\<close>

definition to_int :: "int \<Rightarrow> int" where
  "to_int x = sint (word_of_int x :: 32 word)"

text \<open>
  The row \<^verbatim>\<open>seq_logits[0 .. vocab_size)\<close> at \<^verbatim>\<open>logits_data + seq_idx * vocab_size\<close>. The
  product is an \<^verbatim>\<open>int\<close>; a read past the buffer is a fault.
\<close>

definition seq_logits_row :: "f32 list \<Rightarrow> int \<Rightarrow> int \<Rightarrow> fault + f32 list" where
  "seq_logits_row logits_data seq_idx vocab_size =
     (let off = seq_idx * vocab_size
      in if off < - (2 ^ 31) \<or> 2 ^ 31 \<le> off then Inl IntOverflow
         else if vocab_size \<le> 0 then Inr []
         else if off < 0 \<or> length logits_data < nat off + nat vocab_size then Inl OutOfBounds
         else Inr (take (nat vocab_size) (drop (nat off) logits_data)))"

fun token_logits_from :: "int \<Rightarrow> f32 list \<Rightarrow> (int \<times> f32) list" where
  "token_logits_from i [] = []"
| "token_logits_from i (x # xs) = (i, x) # token_logits_from (i + 1) xs"

text \<open>
  A logits tensor as the probe expects it: shape (batch_size, vocab_size), both extents and
  their product within \<^verbatim>\<open>int\<close>, and a buffer of that many floats.
\<close>

definition wf_logits :: "NDArray \<Rightarrow> bool" where
  "wf_logits t =
     (length (shape t) = 2 \<and> 0 \<le> shape t ! 0 \<and> 0 \<le> shape t ! 1 \<and>
      shape t ! 0 < 2 ^ 31 \<and> shape t ! 1 < 2 ^ 31 \<and> shape t ! 0 * shape t ! 1 < 2 ^ 31 \<and>
      int (length (data t)) = shape t ! 0 * shape t ! 1)"

subsection \<open>The report\<close>

definition by_logit_desc :: "int \<times> f32 \<Rightarrow> int \<times> f32 \<Rightarrow> bool" where
  "by_logit_desc a b = f32_greater (snd a) (snd b)"

text \<open>The \<^verbatim>\<open>try\<close> block of one entry: a raise of \<^verbatim>\<open>IdToToken\<close> is caught and nothing is written.\<close>

definition put_token :: "bool \<Rightarrow> tokenizer_obj \<Rightarrow> int \<Rightarrow> string" where
  "put_token is_signed tok token_id =
     (case IdToToken tok token_id of
        Inl e \<Rightarrow> []
      | Inr token_str \<Rightarrow> '' token='' @ [CHR 0x22] @ escape_token is_signed token_str @ [CHR 0x22])"

definition put_entry :: "fpu \<Rightarrow> bool \<Rightarrow> Tokenizer \<Rightarrow> bool \<Rightarrow> int \<Rightarrow> int \<times> f32 \<Rightarrow> string" where
  "put_entry fp is_signed tok verbose i e =
     (let token_id = fst e; logit_val = snd e
      in ''  ['' @ to_string i @ ''] token_id='' @ to_string token_id
           @ '' logit='' @ put_fixed4 fp logit_val
           @ (if defined tok \<and> verbose then put_token is_signed (the tok) token_id else [])
           @ endl)"

function print_top :: "fpu \<Rightarrow> bool \<Rightarrow> Tokenizer \<Rightarrow> bool \<Rightarrow> (int \<times> f32) list \<Rightarrow> int \<Rightarrow> int \<Rightarrow> string \<Rightarrow> string" where
  "print_top fp is_signed tok verbose token_logits print_count i out =
     (if i < print_count
      then print_top fp is_signed tok verbose token_logits print_count (i + 1)
             (out @ put_entry fp is_signed tok verbose i (token_logits ! nat i))
      else out)"
  by pat_completeness auto
termination
  by (relation "measure (\<lambda>(fp, sg, t, v, tl, print_count, i, out). nat (print_count - i))") auto

declare print_top.simps [simp del]

text \<open>The statistics line; \<^verbatim>\<open>max_element\<close> of an empty range is dereferenced, which is a fault.\<close>

definition put_stats :: "fpu \<Rightarrow> f32 list \<Rightarrow> int \<Rightarrow> fault + string" where
  "put_stats fp seq_logits vocab_size =
     (case seq_logits of
        [] \<Rightarrow> Inl OutOfBounds
      | x # xs \<Rightarrow>
          (let max_logit = max_element x xs;
               min_logit = min_element x xs;
               sum_logits = accumulate fp seq_logits 0;
               mean_logit = fdiv fp sum_logits (f32_of_int fp vocab_size)
           in Inr (''  Stats: max='' @ put_fixed4 fp max_logit @ '' min='' @ put_fixed4 fp min_logit
                    @ '' mean='' @ put_fixed4 fp mean_logit @ endl)))"

text \<open>
  The label of a row: its request id when the list has one at that index. The comparison
  is made in \<^verbatim>\<open>size_t\<close>, where a negative index would be larger than any size.
\<close>

definition req_id_of :: "string list \<Rightarrow> int \<Rightarrow> string" where
  "req_id_of request_ids seq_idx =
     (if 0 \<le> seq_idx \<and> nat seq_idx < length request_ids then request_ids ! nat seq_idx
      else ''unknown'')"

definition put_request_id :: "string list \<Rightarrow> int \<Rightarrow> string" where
  "put_request_id request_ids seq_idx =
     ''Request ID: '' @ req_id_of request_ids seq_idx @ '' (seq '' @ to_string seq_idx @ '')'' @ endl"

text \<open>The vector of (token id, logit) pairs of a row, after the partial sort.\<close>

definition sorted_token_logits :: "int \<Rightarrow> int \<Rightarrow> f32 list \<Rightarrow> (int \<times> f32) list" where
  "sorted_token_logits top_k vocab_size seq_logits =
     partial_sort (nat (min top_k vocab_size)) by_logit_desc (token_logits_from 0 seq_logits)"

text \<open>
  One iteration of the loop over the sequences, appending to the output written so far.
  A negative \<^verbatim>\<open>std::min(top_k, vocab_size)\<close> puts the middle iterator before the beginning
  of the vector, which is a fault.
\<close>

definition print_seq ::
  "fpu \<Rightarrow> bool \<Rightarrow> Tokenizer \<Rightarrow> bool \<Rightarrow> string list \<Rightarrow> f32 list \<Rightarrow> int \<Rightarrow> int \<Rightarrow> int \<Rightarrow> int \<Rightarrow> string
     \<Rightarrow> fault + string" where
  "print_seq fp is_signed tok verbose request_ids logits_data batch_size vocab_size top_k
      seq_idx out =
     (let out1 = out @ put_request_id request_ids seq_idx
      in case seq_logits_row logits_data seq_idx vocab_size of
           Inl f \<Rightarrow> Inl f
         | Inr seq_logits \<Rightarrow>
             if min top_k vocab_size < 0 then Inl OutOfBounds
             else
               (let token_logits = sorted_token_logits top_k vocab_size seq_logits;
                    print_count = min top_k vocab_size;
                    out2 = print_top fp is_signed tok verbose token_logits print_count 0 out1;
                    sep = (if seq_idx < batch_size - 1 then endl else [])
                in if verbose
                   then (case put_stats fp seq_logits vocab_size of
                           Inl f \<Rightarrow> Inl f
                         | Inr line \<Rightarrow> Inr (out2 @ line @ sep))
                   else Inr (out2 @ sep)))"

function seq_loop ::
  "fpu \<Rightarrow> bool \<Rightarrow> Tokenizer \<Rightarrow> bool \<Rightarrow> string list \<Rightarrow> f32 list \<Rightarrow> int \<Rightarrow> int \<Rightarrow> int \<Rightarrow> int \<Rightarrow> string
     \<Rightarrow> fault + string" where
  "seq_loop fp is_signed tok verbose request_ids logits_data batch_size vocab_size top_k
      seq_idx out =
     (if seq_idx < batch_size
      then (case print_seq fp is_signed tok verbose request_ids logits_data batch_size
                   vocab_size top_k seq_idx out of
              Inl f \<Rightarrow> Inl f
            | Inr out' \<Rightarrow> seq_loop fp is_signed tok verbose request_ids logits_data batch_size
                           vocab_size top_k (seq_idx + 1) out')
      else Inr out)"
  by pat_completeness auto
termination
  by (relation "measure (\<lambda>(fp, sg, t, v, ids, d, batch_size, vs, k, seq_idx, out).
        nat (batch_size - seq_idx))") auto

declare seq_loop.simps [simp del]

definition DebugPrintLogits ::
  "fpu \<Rightarrow> bool \<Rightarrow> NDArray \<Rightarrow> string \<Rightarrow> string list \<Rightarrow> int \<Rightarrow> process \<Rightarrow> fault + process" where
  "DebugPrintLogits fp is_signed logits phase request_ids top_k p =
     (if \<not> IsLogitDebugEnabled p then Inr p
      else
        (case CopyTo logits CPU p of (logits_cpu, p1) \<Rightarrow>
           if length (shape logits_cpu) < 2 then Inl OutOfBounds
           else
             (let batch_size = to_int (shape logits_cpu ! 0);
                  vocab_size = to_int (shape logits_cpu ! 1);
                  logits_data = data logits_cpu;
                  verbose = IsLogitDebugVerbose p1;
                  tok = DebugGetTokenizer p1;
                  out0 = cout p1 @ endl @ ''=== MLC DEBUG LOGITS ['' @ phase @ ''] ==='' @ endl
              in case seq_loop fp is_signed tok verbose request_ids logits_data batch_size
                        vocab_size top_k 0 out0 of
                   Inl f \<Rightarrow> Inl f
                 | Inr out1 \<Rightarrow>
                     Inr (p1\<lparr>cout := out1 @ ''=== END DEBUG LOGITS ==='' @ endl @ endl\<rparr>))))"

subsection \<open>Sample inputs\<close>

text \<open>
  A stand-in for the float operations of the runtime, used where a property is instantiated
  at a concrete input: no property below depends on what it computes.
\<close>

definition sample_fpu :: fpu where
  "sample_fpu = \<lparr>fadd = (\<lambda>a b. a), fdiv = (\<lambda>a b. a), f32_of_int = (\<lambda>i. 0),
                  put_fixed4 = (\<lambda>x. to_string (uint x))\<rparr>"

text \<open>
  The same with the arithmetic of \<open>binary32\<close>, a tokenizer that knows token 0 only, and small
  tensors and processes.
\<close>

definition sample_binary32 :: fpu where
  "sample_binary32 = binary32 (put_fixed4 sample_fpu)"

definition sample_tokenizer :: tokenizer_obj where
  "sample_tokenizer = TokenizerObj (\<lambda>i. if i = 0 then Inr ''a'' else Inl (Exn ''unknown id''))"

definition sample_process :: process where
  "sample_process =
     DebugRegisterTokenizer (Some sample_tokenizer) (startup [''MLC_DEBUG_LOGITS'' \<mapsto> ''verbose''])"

definition sample_logits :: NDArray where
  "sample_logits = \<lparr>shape = [1, 2], data = [0x3F800000, 0x40000000], dev = Accelerator 0\<rparr>"

definition verbose_process :: process where
  "verbose_process = startup [''MLC_DEBUG_LOGITS'' \<mapsto> ''verbose'']"

definition sample_row :: NDArray where
  "sample_row = \<lparr>shape = [1, 3], data = [0x3F800000, 0x40000000, 0x40400000], dev = Accelerator 0\<rparr>"

section \<open>Properties\<close>

subsection \<open>Auxiliary facts\<close>

lemma of_char_digit_char:
  assumes "0 \<le> d" "d < 10"
  shows "(of_char (digit_char d) :: nat) = nat (48 + d)"
proof -
  have "nat (48 + d) < 256" using assms by linarith
  then show ?thesis by (simp add: digit_char_def)
qed

lemma put_dec_digits:
  "0 \<le> n \<Longrightarrow> c \<in> set (put_dec n) \<Longrightarrow> 48 \<le> (of_char c :: nat) \<and> (of_char c :: nat) \<le> 57"
proof (induction n arbitrary: c rule: put_dec.induct)
  case (1 n)
  show ?case
  proof (cases "n < 10")
    case True
    with "1.prems" have "c = digit_char n" by (simp add: put_dec.simps)
    moreover have "(of_char (digit_char n) :: nat) = nat (48 + n)"
      using "1.prems"(1) True by (rule of_char_digit_char)
    moreover have "48 \<le> nat (48 + n) \<and> nat (48 + n) \<le> 57"
      using "1.prems"(1) True by linarith
    ultimately show ?thesis by simp
  next
    case False
    have "(of_char (digit_char (n mod 10)) :: nat) = nat (48 + n mod 10)"
      by (rule of_char_digit_char) simp_all
    moreover have "0 \<le> n mod 10" "n mod 10 < 10" by simp_all
    then have "48 \<le> nat (48 + n mod 10) \<and> nat (48 + n mod 10) \<le> 57" by linarith
    ultimately have "48 \<le> (of_char (digit_char (n mod 10)) :: nat) \<and>
               (of_char (digit_char (n mod 10)) :: nat) \<le> 57"
      by simp
    moreover from False "1.prems"
    have "c \<in> set (put_dec (n div 10)) \<or> c = digit_char (n mod 10)"
      by (subst (asm) put_dec.simps) auto
    moreover have "0 \<le> n div 10" using "1.prems" by simp
    ultimately show ?thesis using "1.IH" [OF False] by blast
  qed
qed

lemma print_top_eq:
  "print_top fp sg tok v es pc i out =
     out @ concat (map (\<lambda>j. put_entry fp sg tok v j (es ! nat j)) [i..pc - 1])"
proof (induction fp sg tok v es pc i out rule: print_top.induct)
  case (1 fp sg tok v es pc i out)
  show ?case
  proof (cases "i < pc")
    case True
    then have u: "[i..pc - 1] = i # [i + 1..pc - 1]" by (simp add: upto_rec1)
    show ?thesis using True "1.IH" [OF True] by (subst print_top.simps) (simp add: u)
  next
    case False
    then show ?thesis by (subst print_top.simps) simp
  qed
qed

lemma seq_loop_blocks:
  assumes "\<And>j out. seq_idx \<le> j \<Longrightarrow> j < batch_size \<Longrightarrow>
             print_seq fp sg tok v ids d batch_size vs k j out = Inr (out @ B j)"
  shows "seq_loop fp sg tok v ids d batch_size vs k seq_idx out =
           Inr (out @ concat (map B [seq_idx..batch_size - 1]))"
  using assms
proof (induction fp sg tok v ids d batch_size vs k seq_idx out rule: seq_loop.induct)
  case (1 fp sg tok v ids d batch_size vs k seq_idx out)
  show ?case
  proof (cases "seq_idx < batch_size")
    case True
    have u: "[seq_idx..batch_size - 1] = seq_idx # [seq_idx + 1..batch_size - 1]"
      using True by (simp add: upto_rec1)
    have step: "print_seq fp sg tok v ids d batch_size vs k seq_idx out = Inr (out @ B seq_idx)"
      using "1.prems" [of seq_idx out] True by simp
    have "seq_loop fp sg tok v ids d batch_size vs k (seq_idx + 1) (out @ B seq_idx) =
            Inr ((out @ B seq_idx) @ concat (map B [seq_idx + 1..batch_size - 1]))"
      by (rule "1.IH" [OF True step]) (use "1.prems" in simp)
    then show ?thesis using True step by (subst seq_loop.simps) (simp add: u)
  next
    case False
    then show ?thesis by (subst seq_loop.simps) simp
  qed
qed

lemma extract_first_mset:
  "extract_first cmp x xs = (b, r) \<Longrightarrow> mset (b # r) = mset (x # xs)"
proof (induction xs arbitrary: x b r)
  case Nil
  then show ?case by simp
next
  case (Cons y ys)
  show ?case
  proof (cases "cmp y x")
    case True
    obtain b' r' where e: "extract_first cmp y ys = (b', r')" by (cases "extract_first cmp y ys")
    with Cons.prems True have "b = b'" "r = x # r'" by simp_all
    with Cons.IH [OF e] show ?thesis by simp
  next
    case False
    obtain b' r' where e: "extract_first cmp x ys = (b', r')" by (cases "extract_first cmp x ys")
    with Cons.prems False have "b = b'" "r = y # r'" by simp_all
    with Cons.IH [OF e] show ?thesis by simp
  qed
qed

lemma extract_first_best:
  assumes "extract_first cmp x xs = (b, r)"
    and "\<forall>u \<in> set (x # xs). \<forall>w \<in> set (x # xs). cmp u w = (key w < key u)"
  shows "key x \<le> key b \<and> (\<forall>y \<in> set r. key y \<le> (key b :: int))"
  using assms
proof (induction xs arbitrary: x b r)
  case Nil
  then show ?case by simp
next
  case (Cons y ys)
  show ?case
  proof (cases "cmp y x")
    case True
    obtain b' r' where e: "extract_first cmp y ys = (b', r')" by (cases "extract_first cmp y ys")
    with Cons.prems True have br: "b = b'" "r = x # r'" by simp_all
    have "key x < key y" using Cons.prems(2) True by simp
    moreover have "key y \<le> key b' \<and> (\<forall>z \<in> set r'. key z \<le> key b')"
      by (rule Cons.IH [OF e]) (use Cons.prems(2) in simp)
    ultimately show ?thesis using br by auto
  next
    case False
    obtain b' r' where e: "extract_first cmp x ys = (b', r')" by (cases "extract_first cmp x ys")
    with Cons.prems False have br: "b = b'" "r = y # r'" by simp_all
    have "key y \<le> key x" using Cons.prems(2) False by auto
    moreover have "key x \<le> key b' \<and> (\<forall>z \<in> set r'. key z \<le> key b')"
      by (rule Cons.IH [OF e]) (use Cons.prems(2) in simp)
    ultimately show ?thesis using br by auto
  qed
qed

lemma partial_sort_mset: "mset (partial_sort k cmp xs) = mset xs"
proof (induction k cmp xs rule: partial_sort.induct)
  case (3 k cmp x xs)
  obtain b r where e: "extract_first cmp x xs = (b, r)" by (cases "extract_first cmp x xs")
  from extract_first_mset [OF e] "3.IH" [OF e [symmetric]] e show ?case by simp
qed simp_all

lemma partial_sort_length: "length (partial_sort k cmp xs) = length xs"
  using partial_sort_mset [of k cmp xs] by (metis size_mset)

lemma partial_sort_sorted:
  assumes "\<forall>u \<in> set xs. \<forall>w \<in> set xs. cmp u w = (key w < key u)"
  shows "sorted_wrt (\<lambda>a b. key b \<le> (key a :: int)) (take k (partial_sort k cmp xs)) \<and>
         (\<forall>a \<in> set (take k (partial_sort k cmp xs)). \<forall>b \<in> set (drop k (partial_sort k cmp xs)). key b \<le> key a)"
  using assms
proof (induction k cmp xs rule: partial_sort.induct)
  case (3 k cmp x xs)
  obtain b r where e: "extract_first cmp x xs = (b, r)" by (cases "extract_first cmp x xs")
  have ms: "mset (b # r) = mset (x # xs)" by (rule extract_first_mset [OF e])
  then have st: "set (b # r) = set (x # xs)" by (metis set_mset_mset)
  have best: "\<forall>y \<in> set r. key y \<le> key b"
    using extract_first_best [OF e "3.prems"] by simp
  have sub: "set r \<subseteq> set (x # xs)" using st by (metis set_subset_Cons)
  have cr: "\<forall>u \<in> set r. \<forall>w \<in> set r. cmp u w = (key w < key u)"
  proof (intro ballI)
    fix u w assume "u \<in> set r" "w \<in> set r"
    with sub have "u \<in> set (x # xs)" "w \<in> set (x # xs)" by blast+
    with "3.prems" show "cmp u w = (key w < key u)" by blast
  qed
  have ih: "sorted_wrt (\<lambda>a b. key b \<le> key a) (take k (partial_sort k cmp r)) \<and>
         (\<forall>a \<in> set (take k (partial_sort k cmp r)). \<forall>b \<in> set (drop k (partial_sort k cmp r)). key b \<le> key a)"
    by (rule "3.IH" [OF e [symmetric] cr])
  have sr: "set (partial_sort k cmp r) = set r" using partial_sort_mset [of k cmp r] by (metis set_mset_mset)
  have t: "set (take k (partial_sort k cmp r)) \<subseteq> set r" using sr set_take_subset by fastforce
  have d: "set (drop k (partial_sort k cmp r)) \<subseteq> set r" using sr set_drop_subset by fastforce
  show ?case using e ih best t d by auto
qed simp_all

lemma to_int_id: "0 \<le> x \<Longrightarrow> x < 2 ^ 31 \<Longrightarrow> to_int x = x"
  by (simp add: to_int_def sint_sbintrunc' signed_take_bit_int_eq_self)

lemma seq_logits_row_wf:
  assumes "0 \<le> seq_idx" "seq_idx < bs" "0 \<le> vs" "bs * vs < 2 ^ 31" "int (length d) = bs * vs"
  shows "\<exists>row. seq_logits_row d seq_idx vs = Inr row \<and> length row = nat vs"
proof (cases "vs = 0")
  case True
  then show ?thesis by (simp add: seq_logits_row_def)
next
  case False
  with assms have vp: "0 < vs" by simp
  have "seq_idx + 1 \<le> bs" using assms by simp
  then have "(seq_idx + 1) * vs \<le> bs * vs" using assms(3) by (rule mult_right_mono)
  then have le: "seq_idx * vs + vs \<le> bs * vs" by (simp add: algebra_simps)
  have off0: "0 \<le> seq_idx * vs" using assms by simp
  have "nat (seq_idx * vs) + nat vs \<le> length d" using le off0 assms(3,5) by linarith
  moreover have "seq_idx * vs < 2 ^ 31" using le assms(3,4) by linarith
  ultimately show ?thesis using off0 vp
    by (simp add: seq_logits_row_def Let_def)
qed

lemma seq_logits_row_length:
  "seq_logits_row d seq_idx vs = Inr row \<Longrightarrow> 0 \<le> vs \<Longrightarrow> length row = nat vs"
  by (auto simp: seq_logits_row_def Let_def split: if_splits)

lemma token_logits_from_length: "length (token_logits_from i xs) = length xs"
  by (induction xs arbitrary: i) simp_all

lemma token_logits_from_nth:
  "j < length xs \<Longrightarrow> token_logits_from i xs ! j = (i + int j, xs ! j)"
proof (induction xs arbitrary: i j)
  case Nil
  then show ?case by simp
next
  case (Cons x xs)
  then show ?case by (cases j) simp_all
qed

lemma token_logits_from_set:
  "e \<in> set (token_logits_from i xs) \<Longrightarrow>
     i \<le> fst e \<and> fst e < i + int (length xs) \<and> snd e = xs ! nat (fst e - i)"
proof -
  assume "e \<in> set (token_logits_from i xs)"
  then obtain j where j: "j < length xs" "e = token_logits_from i xs ! j"
    by (metis in_set_conv_nth token_logits_from_length)
  then show ?thesis by (simp add: token_logits_from_nth)
qed

lemma token_logits_from_distinct: "distinct (map fst (token_logits_from i xs))"
proof (induction xs arbitrary: i)
  case Nil
  show ?case by simp
next
  case (Cons x xs)
  have "i \<notin> fst ` set (token_logits_from (i + 1) xs)"
    using token_logits_from_set [of _ "i + 1" xs] by fastforce
  with Cons show ?case by simp
qed

lemma by_logit_desc_key:
  "\<not> isnan (snd u) \<Longrightarrow> \<not> isnan (snd w) \<Longrightarrow>
     by_logit_desc u w = (f32_key (snd w) < f32_key (snd u))"
  by (simp add: by_logit_desc_def f32_greater_def f32_less_def)

lemma put_stats_ok: "seq_logits \<noteq> [] \<Longrightarrow> \<exists>line. put_stats fp seq_logits vs = Inr line"
  by (cases seq_logits) (simp_all add: put_stats_def Let_def)

lemma print_seq_eq:
  assumes "seq_logits_row d seq_idx vs = Inr row" and "0 \<le> min k vs"
    and "if verbose then put_stats fp row vs = Inr line else line = []"
  shows "print_seq fp sg tok verbose ids d bs vs k seq_idx out =
           Inr (out @ put_request_id ids seq_idx
                 @ concat (map (\<lambda>j. put_entry fp sg tok verbose j (sorted_token_logits k vs row ! nat j))
                             [0..min k vs - 1])
                 @ line @ (if seq_idx < bs - 1 then endl else []))"
  using assms by (simp add: print_seq_def print_top_eq Let_def split: if_splits)

lemma upto_map_nat: "0 \<le> n \<Longrightarrow> map f [0..n - 1] = map (\<lambda>j. f (int j)) [0..<nat n]"
proof -
  assume n: "0 \<le> n"
  have "[0..n - 1] = map int [0..<nat n]"
  proof (rule nth_equalityI)
    show "length [0..n - 1] = length (map int [0..<nat n])" using n by simp
  next
    fix i assume "i < length [0..n - 1]"
    then show "[0..n - 1] ! i = map int [0..<nat n] ! i" using n by simp
  qed
  then show ?thesis by (simp add: comp_def)
qed

lemma sorted_token_logits_mset:
  "mset (sorted_token_logits k vs row) = mset (token_logits_from 0 row)"
  by (simp add: sorted_token_logits_def partial_sort_mset)

lemma sorted_token_logits_set:
  "set (sorted_token_logits k vs row) = set (token_logits_from 0 row)"
  using sorted_token_logits_mset [of k vs row] by (metis set_mset_mset)

lemma sorted_token_logits_length: "length (sorted_token_logits k vs row) = length row"
  by (simp add: sorted_token_logits_def partial_sort_length token_logits_from_length)

lemma sorted_token_logits_distinct: "distinct (map fst (sorted_token_logits k vs row))"
proof -
  have "mset (map fst (sorted_token_logits k vs row)) = mset (map fst (token_logits_from 0 row))"
    using sorted_token_logits_mset [of k vs row] by (metis mset_map)
  then show ?thesis using token_logits_from_distinct [of 0 row] by (metis mset_eq_imp_distinct_iff)
qed

lemma sorted_token_logits_order:
  assumes nn: "\<forall>x \<in> set row. \<not> isnan x"
  shows "sorted_wrt (\<lambda>a b. f32_greater_eq (snd a) (snd b))
           (take (nat (min k vs)) (sorted_token_logits k vs row))"
    and "\<forall>a \<in> set (take (nat (min k vs)) (sorted_token_logits k vs row)).
         \<forall>b \<in> set (drop (nat (min k vs)) (sorted_token_logits k vs row)).
           f32_greater_eq (snd a) (snd b)"
proof -
  let ?tl = "token_logits_from 0 row"
  let ?s = "sorted_token_logits k vs row"
  let ?n = "nat (min k vs)"
  let ?key = "\<lambda>e :: int \<times> f32. f32_key (snd e)"
  have ok: "\<not> isnan (snd e)" if "e \<in> set ?tl" for e
  proof -
    from token_logits_from_set [OF that]
    have "nat (fst e) < length row" "snd e = row ! nat (fst e)" by (simp_all add: nat_less_iff)
    then have "snd e \<in> set row" by simp
    with nn show ?thesis by blast
  qed
  have cmp: "\<forall>u \<in> set ?tl. \<forall>w \<in> set ?tl. by_logit_desc u w = (?key w < ?key u)"
    using ok by (simp add: by_logit_desc_key)
  have ps: "sorted_wrt (\<lambda>a b. ?key b \<le> ?key a) (take ?n ?s) \<and>
        (\<forall>a \<in> set (take ?n ?s). \<forall>b \<in> set (drop ?n ?s). ?key b \<le> ?key a)"
    unfolding sorted_token_logits_def by (rule partial_sort_sorted [OF cmp])
  have oks: "\<not> isnan (snd e)" if "e \<in> set ?s" for e
    using that ok sorted_token_logits_set by blast
  have okt: "\<not> isnan (snd e)" if "e \<in> set (take ?n ?s)" for e
    using that oks in_set_takeD by fastforce
  have okd: "\<not> isnan (snd e)" if "e \<in> set (drop ?n ?s)" for e
    using that oks in_set_dropD by fastforce
  show "sorted_wrt (\<lambda>a b. f32_greater_eq (snd a) (snd b)) (take ?n ?s)"
  proof (rule sorted_wrt_mono_rel [where P = "\<lambda>a b. ?key b \<le> ?key a"])
    show "sorted_wrt (\<lambda>a b. ?key b \<le> ?key a) (take ?n ?s)" using ps by simp
  next
    fix a b assume "a \<in> set (take ?n ?s)" "b \<in> set (take ?n ?s)" "?key b \<le> ?key a"
    then show "f32_greater_eq (snd a) (snd b)" using okt by (simp add: f32_greater_eq_def)
  qed
  show "\<forall>a \<in> set (take ?n ?s). \<forall>b \<in> set (drop ?n ?s). f32_greater_eq (snd a) (snd b)"
    using ps okt okd by (simp add: f32_greater_eq_def)
qed

lemma print_seq_block:
  assumes "0 \<le> j" "j < bs" "0 \<le> vs" "bs * vs < 2 ^ 31" "int (length d) = bs * vs"
    and "0 \<le> k" and "verbose \<longrightarrow> 0 < vs"
  shows "\<exists>rest. \<forall>out. print_seq fp sg tok verbose ids d bs vs k j out =
           Inr (out @ put_request_id ids j @ rest)"
proof -
  from seq_logits_row_wf [OF assms(1-5)]
  obtain row where row: "seq_logits_row d j vs = Inr row" "length row = nat vs" by blast
  have m0: "0 \<le> min k vs" using assms by simp
  obtain line where line: "if verbose then put_stats fp row vs = Inr line else line = []"
  proof (cases verbose)
    case True
    with assms(7) row(2) have "row \<noteq> []" by auto
    from put_stats_ok [OF this] True that show ?thesis by auto
  next
    case False
    with that show ?thesis by simp
  qed
  show ?thesis using print_seq_eq [OF row(1) m0 line] by blast
qed

lemma DebugPrintLogits_report:
  assumes en: "IsLogitDebugEnabled p" and wf: "wf_logits logits" and k: "0 \<le> top_k"
    and st: "IsLogitDebugVerbose p \<longrightarrow> 0 < shape logits ! 1"
  shows "\<exists>B. (\<forall>j. 0 \<le> j \<and> j < shape logits ! 0 \<longrightarrow>
              (\<exists>rest. B j = put_request_id request_ids j @ rest) \<and>
              print_seq fp sg (DebugGetTokenizer p) (IsLogitDebugVerbose p) request_ids (data logits)
                (shape logits ! 0) (shape logits ! 1) top_k j [] = Inr (B j)) \<and>
           DebugPrintLogits fp sg logits phase request_ids top_k p =
             Inr (p\<lparr>cout := cout p @ endl @ ''=== MLC DEBUG LOGITS ['' @ phase @ ''] ==='' @ endl
                          @ concat (map B [0..shape logits ! 0 - 1])
                          @ ''=== END DEBUG LOGITS ==='' @ endl @ endl,
                     copies := Suc (copies p)\<rparr>)"
proof -
  let ?bs = "shape logits ! 0" and ?vs = "shape logits ! 1"
  let ?v = "IsLogitDebugVerbose p" and ?tok = "DebugGetTokenizer p"
  from wf have w: "length (shape logits) = 2" "0 \<le> ?bs" "0 \<le> ?vs" "?bs < 2 ^ 31" "?vs < 2 ^ 31"
      "?bs * ?vs < 2 ^ 31" "int (length (data logits)) = ?bs * ?vs"
    by (simp_all add: wf_logits_def)
  have "\<forall>j. \<exists>rest. 0 \<le> j \<and> j < ?bs \<longrightarrow>
          (\<forall>out. print_seq fp sg ?tok ?v request_ids (data logits) ?bs ?vs top_k j out =
             Inr (out @ put_request_id request_ids j @ rest))"
    using print_seq_block [OF _ _ w(3) w(6) w(7) k st] by blast
  then obtain R where R: "\<And>j out. 0 \<le> j \<Longrightarrow> j < ?bs \<Longrightarrow>
          print_seq fp sg ?tok ?v request_ids (data logits) ?bs ?vs top_k j out =
             Inr (out @ put_request_id request_ids j @ R j)"
    by metis
  define B where "B j = put_request_id request_ids j @ R j" for j
  have loop: "seq_loop fp sg ?tok ?v request_ids (data logits) ?bs ?vs top_k 0 out =
           Inr (out @ concat (map B [0..?bs - 1]))" for out
  proof (rule seq_loop_blocks)
    fix j out' assume "0 \<le> j" "j < ?bs"
    then show "print_seq fp sg ?tok ?v request_ids (data logits) ?bs ?vs top_k j out' =
        Inr (out' @ B j)"
      unfolding B_def by (rule R)
  qed
  have ti: "to_int ?bs = ?bs" "to_int ?vs = ?vs" using w by (simp_all add: to_int_id)
  have gate: "IsLogitDebugVerbose (p\<lparr>copies := Suc (copies p)\<rparr>) = ?v"
      "DebugGetTokenizer (p\<lparr>copies := Suc (copies p)\<rparr>) = ?tok"
    by (simp_all add: IsLogitDebugVerbose_def getenv_def DebugGetTokenizer_def)
  have "DebugPrintLogits fp sg logits phase request_ids top_k p =
             Inr (p\<lparr>cout := cout p @ endl @ ''=== MLC DEBUG LOGITS ['' @ phase @ ''] ==='' @ endl
                          @ concat (map B [0..?bs - 1])
                          @ ''=== END DEBUG LOGITS ==='' @ endl @ endl,
                     copies := Suc (copies p)\<rparr>)"
    using en w(1) ti gate loop by (simp add: DebugPrintLogits_def CopyTo_def Let_def)
  moreover have "\<forall>j. 0 \<le> j \<and> j < ?bs \<longrightarrow>
              (\<exists>rest. B j = put_request_id request_ids j @ rest) \<and>
              print_seq fp sg ?tok ?v request_ids (data logits) ?bs ?vs top_k j [] = Inr (B j)"
    using R [of _ "[]"] unfolding B_def by auto
  ultimately show ?thesis by blast
qed

lemma max_element_mem: "max_element a xs \<in> set (a # xs)"
proof (induction xs arbitrary: a)
  case Nil
  show ?case by simp
next
  case (Cons x xs)
  from Cons [of "if f32_less a x then x else a"] show ?case by (auto split: if_splits)
qed

lemma min_element_mem: "min_element a xs \<in> set (a # xs)"
proof (induction xs arbitrary: a)
  case Nil
  show ?case by simp
next
  case (Cons x xs)
  from Cons [of "if f32_less x a then x else a"] show ?case by (auto split: if_splits)
qed

lemma max_element_key:
  "\<forall>x \<in> set (a # xs). \<not> isnan x \<Longrightarrow> \<forall>x \<in> set (a # xs). f32_key x \<le> f32_key (max_element a xs)"
proof (induction xs arbitrary: a)
  case Nil
  show ?case by simp
next
  case (Cons x xs)
  let ?b = "if f32_less a x then x else a"
  have nn: "\<forall>y \<in> set (?b # xs). \<not> isnan y" using Cons.prems by simp
  have ih: "\<forall>y \<in> set (?b # xs). f32_key y \<le> f32_key (max_element ?b xs)"
    by (rule Cons.IH [OF nn])
  have "f32_key a \<le> f32_key ?b" "f32_key x \<le> f32_key ?b"
    using Cons.prems by (auto simp: f32_less_def)
  with ih show ?case by auto
qed

lemma min_element_key:
  "\<forall>x \<in> set (a # xs). \<not> isnan x \<Longrightarrow> \<forall>x \<in> set (a # xs). f32_key (min_element a xs) \<le> f32_key x"
proof (induction xs arbitrary: a)
  case Nil
  show ?case by simp
next
  case (Cons x xs)
  let ?b = "if f32_less x a then x else a"
  have nn: "\<forall>y \<in> set (?b # xs). \<not> isnan y" using Cons.prems by simp
  have ih: "\<forall>y \<in> set (?b # xs). f32_key (min_element ?b xs) \<le> f32_key y"
    by (rule Cons.IH [OF nn])
  have "f32_key ?b \<le> f32_key a" "f32_key ?b \<le> f32_key x"
    using Cons.prems by (auto simp: f32_less_def)
  with ih show ?case by auto
qed

lemma put_stats_text:
  assumes "seq_logits \<noteq> []"
  shows "\<exists>mx mn. put_stats fp seq_logits vs =
           Inr (''  Stats: max='' @ put_fixed4 fp mx @ '' min='' @ put_fixed4 fp mn @ '' mean=''
                 @ put_fixed4 fp (fdiv fp (foldl (fadd fp) 0 seq_logits) (f32_of_int fp vs)) @ endl) \<and>
         mx \<in> set seq_logits \<and> mn \<in> set seq_logits \<and>
         ((\<forall>x \<in> set seq_logits. \<not> isnan x) \<longrightarrow>
            (\<forall>x \<in> set seq_logits. f32_greater_eq mx x \<and> f32_greater_eq x mn))"
proof -
  from assms obtain a xs where ax: "seq_logits = a # xs" by (cases seq_logits) auto
  let ?mx = "max_element a xs" and ?mn = "min_element a xs"
  have line: "put_stats fp seq_logits vs =
           Inr (''  Stats: max='' @ put_fixed4 fp ?mx @ '' min='' @ put_fixed4 fp ?mn @ '' mean=''
                 @ put_fixed4 fp (fdiv fp (foldl (fadd fp) 0 seq_logits) (f32_of_int fp vs)) @ endl)"
    by (simp add: ax put_stats_def accumulate_def Let_def)
  have mem: "?mx \<in> set seq_logits" "?mn \<in> set seq_logits"
    using max_element_mem [of a xs] min_element_mem [of a xs] by (simp_all add: ax)
  have ord: "\<forall>x \<in> set seq_logits. f32_greater_eq ?mx x \<and> f32_greater_eq x ?mn"
    if nn: "\<forall>x \<in> set seq_logits. \<not> isnan x"
  proof
    fix x assume x: "x \<in> set seq_logits"
    from nn have nn': "\<forall>y \<in> set (a # xs). \<not> isnan y" by (simp add: ax)
    from max_element_key [OF nn'] min_element_key [OF nn'] x
    have "f32_key x \<le> f32_key ?mx" "f32_key ?mn \<le> f32_key x" unfolding ax by blast+
    with nn x mem show "f32_greater_eq ?mx x \<and> f32_greater_eq x ?mn"
      by (simp add: f32_greater_eq_def)
  qed
  from line mem ord show ?thesis by blast
qed

lemma print_seq_rows:
  assumes row: "seq_logits_row d seq_idx vs = Inr row" and k: "0 \<le> k" and vs: "0 \<le> vs"
    and line: "if verbose then put_stats fp row vs = Inr line else line = []"
  shows "print_seq fp sg tok verbose ids d bs vs k seq_idx out =
           Inr (out @ put_request_id ids seq_idx
                 @ concat (map (\<lambda>j. put_entry fp sg tok verbose (int j)
                                   (take (nat (min k vs)) (sorted_token_logits k vs row) ! j))
                             [0..<nat (min k vs)])
                 @ line @ (if seq_idx < bs - 1 then endl else []))"
proof -
  let ?s = "sorted_token_logits k vs row"
  let ?n = "nat (min k vs)"
  have m0: "0 \<le> min k vs" using k vs by simp
  have "map (\<lambda>j. put_entry fp sg tok verbose j (?s ! nat j)) [0..min k vs - 1]
      = map (\<lambda>j. put_entry fp sg tok verbose (int j) (?s ! nat (int j))) [0..<?n]"
    by (rule upto_map_nat [OF m0])
  also have "\<dots> = map (\<lambda>j. put_entry fp sg tok verbose (int j) (take ?n ?s ! j)) [0..<?n]"
    by (rule map_cong) simp_all
  finally show ?thesis using print_seq_eq [OF row m0 line] by simp
qed

lemma DebugPrintLogits_rows:
  assumes en: "IsLogitDebugEnabled p" and wf: "wf_logits logits" and k: "0 \<le> top_k"
    and st: "IsLogitDebugVerbose p \<longrightarrow> 0 < shape logits ! 1"
  shows "\<exists>blocks.
      length blocks = nat (shape logits ! 0) \<and>
      DebugPrintLogits fp sg logits phase request_ids top_k p =
        Inr (p\<lparr>cout := cout p @ endl @ ''=== MLC DEBUG LOGITS ['' @ phase @ ''] ==='' @ endl
                     @ concat blocks
                     @ ''=== END DEBUG LOGITS ==='' @ endl @ endl,
                copies := Suc (copies p)\<rparr>) \<and>
      (\<forall>i < length blocks. \<exists>row stats.
         seq_logits_row (data logits) (int i) (shape logits ! 1) = Inr row \<and>
         length row = nat (shape logits ! 1) \<and>
         (if IsLogitDebugVerbose p then put_stats fp row (shape logits ! 1) = Inr stats
          else stats = []) \<and>
         blocks ! i =
           put_request_id request_ids (int i)
           @ concat (map (\<lambda>j. put_entry fp sg (DebugGetTokenizer p) (IsLogitDebugVerbose p) (int j)
                             (take (nat (min top_k (shape logits ! 1)))
                                (sorted_token_logits top_k (shape logits ! 1) row) ! j))
                       [0..<nat (min top_k (shape logits ! 1))])
           @ stats @ (if int i < shape logits ! 0 - 1 then endl else []))"
proof -
  let ?bs = "shape logits ! 0" and ?vs = "shape logits ! 1"
  let ?v = "IsLogitDebugVerbose p" and ?tok = "DebugGetTokenizer p"
  from wf have w: "0 \<le> ?bs" "0 \<le> ?vs" "?bs * ?vs < 2 ^ 31" "int (length (data logits)) = ?bs * ?vs"
    by (simp_all add: wf_logits_def)
  from DebugPrintLogits_report [OF en wf k st, of request_ids fp sg phase]
  obtain B where B: "\<And>j. 0 \<le> j \<Longrightarrow> j < ?bs \<Longrightarrow>
              print_seq fp sg ?tok ?v request_ids (data logits) ?bs ?vs top_k j [] = Inr (B j)"
    and run: "DebugPrintLogits fp sg logits phase request_ids top_k p =
             Inr (p\<lparr>cout := cout p @ endl @ ''=== MLC DEBUG LOGITS ['' @ phase @ ''] ==='' @ endl
                          @ concat (map B [0..?bs - 1])
                          @ ''=== END DEBUG LOGITS ==='' @ endl @ endl,
                     copies := Suc (copies p)\<rparr>)"
    by blast
  define blocks where "blocks = map B [0..?bs - 1]"
  have len: "length blocks = nat ?bs" by (simp add: blocks_def)
  have nth: "blocks ! i = B (int i)" if "i < length blocks" for i
    using that by (simp add: blocks_def)
  have each: "\<exists>row stats.
         seq_logits_row (data logits) (int i) ?vs = Inr row \<and>
         length row = nat ?vs \<and>
         (if ?v then put_stats fp row ?vs = Inr stats else stats = []) \<and>
         blocks ! i =
           put_request_id request_ids (int i)
           @ concat (map (\<lambda>j. put_entry fp sg ?tok ?v (int j)
                             (take (nat (min top_k ?vs)) (sorted_token_logits top_k ?vs row) ! j))
                       [0..<nat (min top_k ?vs)])
           @ stats @ (if int i < ?bs - 1 then endl else [])"
    if i: "i < length blocks" for i
  proof -
    have r: "0 \<le> int i" "int i < ?bs" using i len by simp_all
    from seq_logits_row_wf [OF r w(2) w(3) w(4)]
    obtain row where row: "seq_logits_row (data logits) (int i) ?vs = Inr row" "length row = nat ?vs"
      by blast
    obtain stats where stats: "if ?v then put_stats fp row ?vs = Inr stats else stats = []"
    proof (cases ?v)
      case True
      with st row(2) have "row \<noteq> []" by auto
      from put_stats_ok [OF this] True that show ?thesis by auto
    next
      case False
      with that show ?thesis by simp
    qed
    have "Inr (B (int i)) = Inr (put_request_id request_ids (int i)
           @ concat (map (\<lambda>j. put_entry fp sg ?tok ?v (int j)
                             (take (nat (min top_k ?vs)) (sorted_token_logits top_k ?vs row) ! j))
                       [0..<nat (min top_k ?vs)])
           @ stats @ (if int i < ?bs - 1 then endl else []))"
      using B [OF r] print_seq_rows [OF row(1) k w(2) stats, of sg ?tok request_ids ?bs "[]"]
      by simp
    then have "blocks ! i = put_request_id request_ids (int i)
           @ concat (map (\<lambda>j. put_entry fp sg ?tok ?v (int j)
                             (take (nat (min top_k ?vs)) (sorted_token_logits top_k ?vs row) ! j))
                       [0..<nat (min top_k ?vs)])
           @ stats @ (if int i < ?bs - 1 then endl else [])"
      by (simp only: nth [OF i] sum.inject)
    with row stats show ?thesis by blast
  qed
  from len run each show ?thesis unfolding blocks_def [symmetric] by blast
qed

lemma list_of_length_2: "length xs = 2 \<Longrightarrow> xs = [xs ! 0, xs ! 1]"
  by (cases xs; cases "tl xs") auto

lemma list_of_length_1: "length xs = 1 \<Longrightarrow> xs = [xs ! 0]"
  by (cases xs) auto

lemma escape_char_printable:
  assumes "d \<in> set (escape_char is_signed c)"
  shows "32 \<le> (of_char d :: nat) \<and> (of_char d :: nat) \<le> 126"
proof (cases "c = CHR 0x0A \<or> c = CHR 0x09 \<or> c = CHR 0x0D")
  case True
  with assms show ?thesis by (auto simp: escape_char_def)
next
  case False
  show ?thesis
  proof (cases "char_value is_signed c < 32 \<or> char_value is_signed c > 126")
    case True
    with False assms have "d = CHR 0x5C \<or> d = CHR ''x'' \<or> d \<in> set (put_dec (unsigned_char c))"
      by (auto simp: escape_char_def to_string_def unsigned_char_def)
    moreover have "0 \<le> unsigned_char c" by (simp add: unsigned_char_def)
    ultimately show ?thesis using put_dec_digits [of "unsigned_char c" d] by auto
  next
    case inner: False
    with False assms have dc: "d = c" by (simp add: escape_char_def)
    define n where "n = (of_char c :: nat)"
    have n: "n < 256" by (simp add: n_def)
    have v: "char_value is_signed c = (if is_signed \<and> 128 \<le> n then int n - 256 else int n)"
      unfolding char_value_def n_def ..
    have "32 \<le> n \<and> n \<le> 126"
    proof (cases "is_signed \<and> 128 \<le> n")
      case True
      with v have "char_value is_signed c = int n - 256" by simp
      with n have "char_value is_signed c < 32" by linarith
      with inner show ?thesis by blast
    next
      case no_wrap: False
      with v have "char_value is_signed c = int n" by simp
      with inner show ?thesis by linarith
    qed
    then show ?thesis by (simp add: dc n_def)
  qed
qed

lemma escape_token_printable:
  "d \<in> set (escape_token is_signed s) \<Longrightarrow> 32 \<le> (of_char d :: nat) \<and> (of_char d :: nat) \<le> 126"
  by (induction s) (auto dest: escape_char_printable)

lemma escape_token_append:
  "escape_token is_signed (s @ t) = escape_token is_signed s @ escape_token is_signed t"
  by (induction s) simp_all

lemma escape_named_controls:
  "escape_char is_signed (CHR 0x0A) = [CHR 0x5C, CHR ''n'']"
  "escape_char is_signed (CHR 0x09) = [CHR 0x5C, CHR ''t'']"
  "escape_char is_signed (CHR 0x0D) = [CHR 0x5C, CHR ''r'']"
  by (simp_all add: escape_char_def)

subsection \<open>Decoder registry and activation gate\<close>

text \<open>
  Claim C8. After \<^verbatim>\<open>DebugRegisterTokenizer(d)\<close> the next \<^verbatim>\<open>DebugGetTokenizer()\<close> returns \<open>d\<close>,
  whatever was registered before (the last registration wins), and a process in which
  nothing was ever registered gets the undefined reference.
\<close>

theorem registry_last_writer_wins:
  "DebugGetTokenizer (DebugRegisterTokenizer d p) = d \<and>
   DebugGetTokenizer (DebugRegisterTokenizer d (DebugRegisterTokenizer d' p)) = d \<and>
   DebugGetTokenizer (startup e) = None"
  by (simp add: DebugGetTokenizer_def DebugRegisterTokenizer_def startup_def Global_init_def)

text \<open>
  Claim C6. \<^verbatim>\<open>IsLogitDebugEnabled()\<close> is true exactly when \<^verbatim>\<open>MLC_DEBUG_LOGITS\<close> is set, whatever
  its value; \<^verbatim>\<open>IsLogitDebugVerbose()\<close> is true exactly when it is set to the string
  \<^verbatim>\<open>verbose\<close>.
\<close>

theorem gate_contract:
  "IsLogitDebugEnabled p = (environ p ''MLC_DEBUG_LOGITS'' \<noteq> None) \<and>
   IsLogitDebugVerbose p = (environ p ''MLC_DEBUG_LOGITS'' = Some ''verbose'')"
  by (simp add: IsLogitDebugEnabled_def IsLogitDebugVerbose_def getenv_def split: option.splits)

theorem gate_contract_witness:
  "IsLogitDebugEnabled (startup [''MLC_DEBUG_LOGITS'' \<mapsto> ''0'']) \<and>
   \<not> IsLogitDebugVerbose (startup [''MLC_DEBUG_LOGITS'' \<mapsto> ''0'']) \<and>
   IsLogitDebugVerbose (startup [''MLC_DEBUG_LOGITS'' \<mapsto> ''verbose'']) \<and>
   \<not> IsLogitDebugEnabled (startup Map.empty)"
  using gate_contract [of "startup [''MLC_DEBUG_LOGITS'' \<mapsto> ''0'']"]
    gate_contract [of "startup [''MLC_DEBUG_LOGITS'' \<mapsto> ''verbose'']"]
    gate_contract [of "startup Map.empty"]
  by (simp add: startup_def)

text \<open>
  Claim C9. In every environment, verbose mode implies that the probe is enabled.
\<close>

theorem verbose_implies_enabled: "IsLogitDebugVerbose p \<Longrightarrow> IsLogitDebugEnabled p"
  by (simp add: IsLogitDebugEnabled_def IsLogitDebugVerbose_def split: option.splits)

theorem verbose_implies_enabled_witness:
  "IsLogitDebugVerbose (startup [''MLC_DEBUG_LOGITS'' \<mapsto> ''verbose'']) \<and>
   IsLogitDebugEnabled (startup [''MLC_DEBUG_LOGITS'' \<mapsto> ''verbose''])"
proof -
  have v: "IsLogitDebugVerbose (startup [''MLC_DEBUG_LOGITS'' \<mapsto> ''verbose''])"
    by (simp add: IsLogitDebugVerbose_def getenv_def startup_def)
  from verbose_implies_enabled [OF v] v show ?thesis by simp
qed

subsection \<open>The disabled path\<close>

text \<open>
  Claim C2. With the gate disabled, \<^verbatim>\<open>DebugPrintLogits\<close> returns at once for every tensor,
  phase, request-id list and \<open>top_k\<close>: the process state is the one it was called in, so
  nothing was written and no tensor was copied.
\<close>

theorem disabled_is_noop:
  "\<not> IsLogitDebugEnabled p \<Longrightarrow> DebugPrintLogits fp is_signed logits phase request_ids top_k p = Inr p"
  by (simp add: DebugPrintLogits_def)

theorem disabled_is_noop_witness:
  "\<not> IsLogitDebugEnabled (startup Map.empty) \<and>
   DebugPrintLogits sample_fpu True \<lparr>shape = [], data = [], dev = Accelerator 0\<rparr> ''DECODE'' [] (- 1)
     (startup Map.empty) = Inr (startup Map.empty)"
proof -
  have h: "\<not> IsLogitDebugEnabled (startup Map.empty)"
    by (simp add: IsLogitDebugEnabled_def getenv_def startup_def)
  from disabled_is_noop [OF h] h show ?thesis by simp
qed

subsection \<open>Escaping of token strings\<close>

text \<open>
  Claim C10. On a token string of printable ASCII bytes (32 to 126) the escaping step is
  the identity.
\<close>

theorem escape_printable_identity:
  "\<forall>c \<in> set s. 32 \<le> (of_char c :: nat) \<and> (of_char c :: nat) \<le> 126 \<Longrightarrow> escape_token is_signed s = s"
proof (induction s)
  case Nil
  show ?case by simp
next
  case (Cons c cs)
  then have r: "32 \<le> (of_char c :: nat)" "(of_char c :: nat) \<le> 126" by simp_all
  have "c \<noteq> CHR 0x0A" "c \<noteq> CHR 0x09" "c \<noteq> CHR 0x0D" using r by auto
  moreover have "\<not> (char_value is_signed c < 32 \<or> char_value is_signed c > 126)"
    using r by (simp add: char_value_def)
  ultimately have "escape_char is_signed c = [c]" by (simp add: escape_char_def)
  with Cons show ?case by simp
qed

theorem escape_printable_identity_witness:
  "escape_token True ''top_k = 10'' = ''top_k = 10'' \<and>
   escape_token False ''top_k = 10'' = ''top_k = 10''"
proof -
  have h: "\<forall>c \<in> set ''top_k = 10''. 32 \<le> (of_char c :: nat) \<and> (of_char c :: nat) \<le> 126"
    by simp
  from escape_printable_identity [OF h, of True] escape_printable_identity [OF h, of False]
  show ?thesis by blast
qed

text \<open>
  Claim C1. The byte 200 is escaped as a backslash, \<open>x\<close> and the decimal digits \<open>200\<close>
  of \<^verbatim>\<open>std::to_string\<close>, not as the two hex digits \<open>c8\<close>, under either signedness of
  \<^verbatim>\<open>char\<close>.
\<close>

theorem escape_byte_200_decimal:
  "escape_token True [CHR 0xC8] = [CHR 0x5C] @ ''x200'' \<and>
   escape_token False [CHR 0xC8] = [CHR 0x5C] @ ''x200''"
  by code_simp

subsection \<open>The report of an enabled probe\<close>

text \<open>
  Claim C4. With the gate enabled, a well-formed tensor and \<open>top_k \<ge> 0\<close> (and a non-empty
  vocabulary in verbose mode), the report is the opening banner, exactly \<open>batch_size\<close>
  blocks and the closing banner, whatever the length of the request-id list. Block \<open>i\<close> is
  what the loop body writes for row \<open>i\<close>; it starts with the line naming the request id at
  index \<open>i\<close> when the list has one, and \<^verbatim>\<open>unknown\<close> otherwise.
\<close>

theorem one_block_per_sequence:
  assumes en: "IsLogitDebugEnabled p" and wf: "wf_logits logits" and k: "0 \<le> top_k"
    and st: "IsLogitDebugVerbose p \<longrightarrow> 0 < shape logits ! 1"
  shows "\<exists>blocks.
      length blocks = nat (shape logits ! 0) \<and>
      DebugPrintLogits fp is_signed logits phase request_ids top_k p =
        Inr (p\<lparr>cout := cout p @ endl @ ''=== MLC DEBUG LOGITS ['' @ phase @ ''] ==='' @ endl
                     @ concat blocks
                     @ ''=== END DEBUG LOGITS ==='' @ endl @ endl,
                copies := Suc (copies p)\<rparr>) \<and>
      (\<forall>i < length blocks.
         print_seq fp is_signed (DebugGetTokenizer p) (IsLogitDebugVerbose p) request_ids
             (data logits) (shape logits ! 0) (shape logits ! 1) top_k (int i) [] = Inr (blocks ! i) \<and>
         (\<exists>rest. blocks ! i =
            ''Request ID: '' @ (if i < length request_ids then request_ids ! i else ''unknown'')
              @ '' (seq '' @ to_string (int i) @ '')'' @ endl @ rest))"
proof -
  let ?bs = "shape logits ! 0"
  from DebugPrintLogits_report [OF en wf k st, of request_ids fp is_signed phase]
  obtain B where B: "\<And>j. 0 \<le> j \<Longrightarrow> j < ?bs \<Longrightarrow>
              (\<exists>rest. B j = put_request_id request_ids j @ rest) \<and>
              print_seq fp is_signed (DebugGetTokenizer p) (IsLogitDebugVerbose p) request_ids
                (data logits) ?bs (shape logits ! 1) top_k j [] = Inr (B j)"
    and run: "DebugPrintLogits fp is_signed logits phase request_ids top_k p =
             Inr (p\<lparr>cout := cout p @ endl @ ''=== MLC DEBUG LOGITS ['' @ phase @ ''] ==='' @ endl
                          @ concat (map B [0..?bs - 1])
                          @ ''=== END DEBUG LOGITS ==='' @ endl @ endl,
                     copies := Suc (copies p)\<rparr>)"
    by blast
  define blocks where "blocks = map B [0..?bs - 1]"
  have len: "length blocks = nat ?bs" by (simp add: blocks_def)
  have nth: "blocks ! i = B (int i)" if "i < length blocks" for i
    using that by (simp add: blocks_def)
  have each: "print_seq fp is_signed (DebugGetTokenizer p) (IsLogitDebugVerbose p) request_ids
             (data logits) ?bs (shape logits ! 1) top_k (int i) [] = Inr (blocks ! i) \<and>
         (\<exists>rest. blocks ! i =
            ''Request ID: '' @ (if i < length request_ids then request_ids ! i else ''unknown'')
              @ '' (seq '' @ to_string (int i) @ '')'' @ endl @ rest)"
    if i: "i < length blocks" for i
  proof -
    have r: "0 \<le> int i" "int i < ?bs" using i len by simp_all
    from B [OF r] obtain rest where
      b: "B (int i) = put_request_id request_ids (int i) @ rest"
      and ps: "print_seq fp is_signed (DebugGetTokenizer p) (IsLogitDebugVerbose p) request_ids
                (data logits) ?bs (shape logits ! 1) top_k (int i) [] = Inr (B (int i))"
      by blast
    from b have "blocks ! i =
            ''Request ID: '' @ (if i < length request_ids then request_ids ! i else ''unknown'')
              @ '' (seq '' @ to_string (int i) @ '')'' @ endl @ rest"
      by (simp add: nth [OF i] put_request_id_def req_id_of_def)
    then have hd: "\<exists>rest. blocks ! i =
            ''Request ID: '' @ (if i < length request_ids then request_ids ! i else ''unknown'')
              @ '' (seq '' @ to_string (int i) @ '')'' @ endl @ rest"
      by (rule exI)
    from ps have "print_seq fp is_signed (DebugGetTokenizer p) (IsLogitDebugVerbose p) request_ids
             (data logits) ?bs (shape logits ! 1) top_k (int i) [] = Inr (blocks ! i)"
      by (simp only: nth [OF i])
    then show ?thesis using hd by (rule conjI)
  qed
  from len run each show ?thesis unfolding blocks_def [symmetric] by blast
qed

theorem one_block_per_sequence_witness:
  "IsLogitDebugEnabled (startup [''MLC_DEBUG_LOGITS'' \<mapsto> ''1'']) \<and>
   wf_logits \<lparr>shape = [2, 1], data = [0x3F800000, 0x40000000], dev = Accelerator 0\<rparr> \<and>
   (\<exists>blocks. length blocks = 2 \<and>
      DebugPrintLogits sample_fpu True
          \<lparr>shape = [2, 1], data = [0x3F800000, 0x40000000], dev = Accelerator 0\<rparr>
          ''DECODE'' [''req-7''] 1 (startup [''MLC_DEBUG_LOGITS'' \<mapsto> ''1'']) =
        Inr ((startup [''MLC_DEBUG_LOGITS'' \<mapsto> ''1''])
               \<lparr>cout := endl @ ''=== MLC DEBUG LOGITS [DECODE] ==='' @ endl @ concat blocks
                          @ ''=== END DEBUG LOGITS ==='' @ endl @ endl,
                 copies := 1\<rparr>))"
proof -
  let ?p = "startup [''MLC_DEBUG_LOGITS'' \<mapsto> ''1'']"
  let ?t = "\<lparr>shape = [2, 1], data = [0x3F800000, 0x40000000], dev = Accelerator 0\<rparr>"
  have en: "IsLogitDebugEnabled ?p" by (simp add: IsLogitDebugEnabled_def getenv_def startup_def)
  have wf: "wf_logits ?t" by (simp add: wf_logits_def)
  have k: "(0::int) \<le> 1" by simp
  have st: "IsLogitDebugVerbose ?p \<longrightarrow> 0 < shape ?t ! 1" by simp
  from one_block_per_sequence [OF en wf k st, of sample_fpu True "''DECODE''" "[''req-7'']"]
  obtain blocks where "length blocks = nat (shape ?t ! 0)"
    "DebugPrintLogits sample_fpu True ?t ''DECODE'' [''req-7''] 1 ?p =
        Inr (?p\<lparr>cout := cout ?p @ endl @ ''=== MLC DEBUG LOGITS ['' @ ''DECODE'' @ ''] ==='' @ endl
                     @ concat blocks @ ''=== END DEBUG LOGITS ==='' @ endl @ endl,
                copies := Suc (copies ?p)\<rparr>)"
    by blast
  then have "length blocks = 2 \<and>
      DebugPrintLogits sample_fpu True ?t ''DECODE'' [''req-7''] 1 ?p =
        Inr (?p\<lparr>cout := endl @ ''=== MLC DEBUG LOGITS [DECODE] ==='' @ endl @ concat blocks
                          @ ''=== END DEBUG LOGITS ==='' @ endl @ endl,
                 copies := 1\<rparr>)"
    by (simp add: startup_def)
  with en wf show ?thesis by blast
qed

text \<open>
  Claim C3. For a row read from the buffer, with \<open>top_k \<ge> 0\<close>, the loop body writes the
  request line, then one line for each entry of \<open>es\<close> and nothing else but the statistics
  line and the separator. \<open>es\<close> has exactly \<open>min(top_k, vocab_size)\<close> entries, which are
  pairs (token id, score of that id in the row) with distinct ids. When no score of the row
  is a NaN (so that the comparator of the partial sort is a strict weak ordering), \<open>es\<close> is
  in descending order of score, and every pair left out scores no more than any entry
  written.
\<close>

theorem top_k_sorted_descending:
  assumes row: "seq_logits_row logits_data seq_idx vocab_size = Inr seq_logits"
    and k: "0 \<le> top_k" and vs: "0 \<le> vocab_size"
    and st: "verbose \<longrightarrow> 0 < vocab_size"
  shows "\<exists>es stats.
      es = take (nat (min top_k vocab_size)) (sorted_token_logits top_k vocab_size seq_logits) \<and>
      print_seq fp is_signed tok verbose request_ids logits_data batch_size vocab_size top_k
          seq_idx out =
        Inr (out @ put_request_id request_ids seq_idx
              @ concat (map (\<lambda>j. put_entry fp is_signed tok verbose (int j) (es ! j)) [0..<length es])
              @ stats @ (if seq_idx < batch_size - 1 then endl else [])) \<and>
      (if verbose then put_stats fp seq_logits vocab_size = Inr stats else stats = []) \<and>
      length es = nat (min top_k vocab_size) \<and>
      distinct (map fst es) \<and>
      (\<forall>e \<in> set es. 0 \<le> fst e \<and> fst e < vocab_size \<and> snd e = seq_logits ! nat (fst e)) \<and>
      ((\<forall>x \<in> set seq_logits. \<not> isnan x) \<longrightarrow>
         sorted_wrt (\<lambda>a b. f32_greater_eq (snd a) (snd b)) es \<and>
         (\<forall>e \<in> set es. \<forall>i < length seq_logits.
            (int i, seq_logits ! i) \<in> set es \<or> f32_greater_eq (snd e) (seq_logits ! i)))"
proof -
  let ?s = "sorted_token_logits top_k vocab_size seq_logits"
  let ?n = "nat (min top_k vocab_size)"
  define es where "es = take ?n ?s"
  have len_row: "length seq_logits = nat vocab_size" by (rule seq_logits_row_length [OF row vs])
  have len_s: "length ?s = nat vocab_size" by (simp add: sorted_token_logits_length len_row)
  have n_le: "?n \<le> length ?s" using len_s by simp
  have len_es: "length es = ?n" using n_le by (simp add: es_def)
  obtain stats where stats: "if verbose then put_stats fp seq_logits vocab_size = Inr stats else stats = []"
  proof (cases verbose)
    case True
    with st len_row have "seq_logits \<noteq> []" by auto
    from put_stats_ok [OF this] True that show ?thesis by auto
  next
    case False
    with that show ?thesis by simp
  qed
  have m0: "0 \<le> min top_k vocab_size" using k vs by simp
  have lines: "map (\<lambda>j. put_entry fp is_signed tok verbose j (?s ! nat j)) [0..min top_k vocab_size - 1]
      = map (\<lambda>j. put_entry fp is_signed tok verbose (int j) (es ! j)) [0..<length es]"
  proof -
    have "map (\<lambda>j. put_entry fp is_signed tok verbose j (?s ! nat j)) [0..min top_k vocab_size - 1]
      = map (\<lambda>j. put_entry fp is_signed tok verbose (int j) (?s ! nat (int j))) [0..<?n]"
      by (rule upto_map_nat [OF m0])
    also have "\<dots> = map (\<lambda>j. put_entry fp is_signed tok verbose (int j) (es ! j)) [0..<?n]"
      by (rule map_cong) (simp_all add: es_def)
    finally show ?thesis by (simp add: len_es)
  qed
  have out: "print_seq fp is_signed tok verbose request_ids logits_data batch_size vocab_size top_k
          seq_idx out =
        Inr (out @ put_request_id request_ids seq_idx
              @ concat (map (\<lambda>j. put_entry fp is_signed tok verbose (int j) (es ! j)) [0..<length es])
              @ stats @ (if seq_idx < batch_size - 1 then endl else []))"
    using print_seq_eq [OF row m0 stats] lines by simp
  have srt: "sorted_wrt (\<lambda>a b. f32_greater_eq (snd a) (snd b)) es"
    if nn: "\<forall>x \<in> set seq_logits. \<not> isnan x"
    unfolding es_def by (rule sorted_token_logits_order(1) [OF nn])
  have dist: "distinct (map fst es)"
    using sorted_token_logits_distinct [of top_k vocab_size seq_logits]
    by (simp add: es_def take_map [symmetric])
  have sub: "set es \<subseteq> set (token_logits_from 0 seq_logits)"
    using set_take_subset [of ?n ?s] by (simp add: es_def sorted_token_logits_set)
  have elems: "\<forall>e \<in> set es. 0 \<le> fst e \<and> fst e < vocab_size \<and> snd e = seq_logits ! nat (fst e)"
  proof
    fix e assume "e \<in> set es"
    with sub have "e \<in> set (token_logits_from 0 seq_logits)" by blast
    from token_logits_from_set [OF this] len_row vs
    show "0 \<le> fst e \<and> fst e < vocab_size \<and> snd e = seq_logits ! nat (fst e)" by simp
  qed
  have top: "\<forall>e \<in> set es. \<forall>i < length seq_logits.
          (int i, seq_logits ! i) \<in> set es \<or> f32_greater_eq (snd e) (seq_logits ! i)"
    if nn: "\<forall>x \<in> set seq_logits. \<not> isnan x"
  proof (intro ballI allI impI)
    fix e i assume e: "e \<in> set es" and i: "i < length seq_logits"
    have "(int i, seq_logits ! i) = token_logits_from 0 seq_logits ! i"
      using token_logits_from_nth [OF i, of 0] by simp
    then have "(int i, seq_logits ! i) \<in> set (token_logits_from 0 seq_logits)"
      using i by (metis nth_mem token_logits_from_length)
    then have "(int i, seq_logits ! i) \<in> set ?s" by (simp add: sorted_token_logits_set)
    then have "(int i, seq_logits ! i) \<in> set (take ?n ?s) \<union> set (drop ?n ?s)"
      by (metis append_take_drop_id set_append)
    then show "(int i, seq_logits ! i) \<in> set es \<or> f32_greater_eq (snd e) (seq_logits ! i)"
      using sorted_token_logits_order(2) [OF nn, of top_k vocab_size] e
      by (fastforce simp: es_def)
  qed
  from out stats len_es srt dist elems top show ?thesis
    unfolding es_def by blast
qed

theorem top_k_sorted_descending_witness:
  "seq_logits_row [0x3F800000, 0x40400000, 0xBF800000, 0x40000000] 0 4
     = Inr [0x3F800000, 0x40400000, 0xBF800000, 0x40000000] \<and>
   length (take (nat (min 2 4))
     (sorted_token_logits 2 4 [0x3F800000, 0x40400000, 0xBF800000, 0x40000000])) = 2 \<and>
   sorted_wrt (\<lambda>a b. f32_greater_eq (snd a) (snd b))
     (take (nat (min 2 4))
       (sorted_token_logits 2 4 [0x3F800000, 0x40400000, 0xBF800000, 0x40000000]))"
proof -
  let ?d = "[0x3F800000, 0x40400000, 0xBF800000, 0x40000000] :: f32 list"
  have row: "seq_logits_row ?d 0 4 = Inr ?d" by (simp add: seq_logits_row_def)
  have k: "(0::int) \<le> 2" and vs: "(0::int) \<le> 4" and st: "True \<longrightarrow> (0::int) < 4" by simp_all
  have nn: "\<forall>x \<in> set ?d. \<not> isnan x" by (simp add: isnan_def magnitude_def)
  from top_k_sorted_descending [OF row k vs st, of sample_fpu True None "[]" 1 "[]"] nn row
  show ?thesis by (elim exE conjE) simp
qed

text \<open>
  A row with a NaN score: for the row (NaN, 1.0) with \<open>top_k = 2\<close> the entries are written
  in the order NaN, 1.0, and neither \<open>NaN \<ge> 1.0\<close> nor \<open>1.0 \<ge> NaN\<close> holds, so no order of
  the two entries is descending.
\<close>

theorem nan_row_not_descending:
  "print_seq sample_fpu True None False [] [0x7FC00000, 0x3F800000] 1 2 2 0 [] =
     Inr (put_request_id [] 0
          @ put_entry sample_fpu True None False 0 (0, 0x7FC00000)
          @ put_entry sample_fpu True None False 1 (1, 0x3F800000)) \<and>
   isnan 0x7FC00000 \<and>
   \<not> f32_greater_eq 0x7FC00000 0x3F800000 \<and>
   \<not> f32_greater_eq 0x3F800000 0x7FC00000"
  by code_simp

text \<open>
  Claim C7. With a tokenizer registered, the gate enabled and a well-formed tensor, the call
  returns normally, whatever \<^verbatim>\<open>IdToToken\<close> does, and the report holds for each row one line
  per top-k entry: rank, token id and score, then the escaped token string in quotes when
  verbose and the lookup returned one, and nothing when the lookup raised, then the
  newline. So an entry whose lookup raises keeps its line and only loses the token string.
\<close>

theorem decode_failure_is_absorbed:
  assumes en: "IsLogitDebugEnabled p" and tok: "DebugGetTokenizer p = Some t"
    and wf: "wf_logits logits" and k: "0 \<le> top_k"
    and st: "IsLogitDebugVerbose p \<longrightarrow> 0 < shape logits ! 1"
  shows "\<exists>blocks.
      length blocks = nat (shape logits ! 0) \<and>
      DebugPrintLogits fp is_signed logits phase request_ids top_k p =
        Inr (p\<lparr>cout := cout p @ endl @ ''=== MLC DEBUG LOGITS ['' @ phase @ ''] ==='' @ endl
                     @ concat blocks
                     @ ''=== END DEBUG LOGITS ==='' @ endl @ endl,
                copies := Suc (copies p)\<rparr>) \<and>
      (\<forall>i < length blocks. \<exists>row es lines stats.
         seq_logits_row (data logits) (int i) (shape logits ! 1) = Inr row \<and>
         es = take (nat (min top_k (shape logits ! 1)))
                (sorted_token_logits top_k (shape logits ! 1) row) \<and>
         (if IsLogitDebugVerbose p then put_stats fp row (shape logits ! 1) = Inr stats
          else stats = []) \<and>
         blocks ! i = put_request_id request_ids (int i) @ concat lines @ stats
                        @ (if int i < shape logits ! 0 - 1 then endl else []) \<and>
         length lines = nat (min top_k (shape logits ! 1)) \<and>
         (\<forall>j < length lines.
            lines ! j =
              ''  ['' @ to_string (int j) @ ''] token_id='' @ to_string (fst (es ! j))
                @ '' logit='' @ put_fixed4 fp (snd (es ! j))
                @ (if IsLogitDebugVerbose p
                   then (case IdToToken t (fst (es ! j)) of
                           Inl x \<Rightarrow> []
                         | Inr token_str \<Rightarrow>
                             '' token='' @ [CHR 0x22] @ escape_token is_signed token_str @ [CHR 0x22])
                   else [])
                @ endl))"
proof -
  let ?vs = "shape logits ! 1" and ?v = "IsLogitDebugVerbose p"
  let ?n = "nat (min top_k ?vs)"
  from DebugPrintLogits_rows [OF en wf k st, of fp is_signed phase request_ids]
  obtain blocks where len: "length blocks = nat (shape logits ! 0)"
    and run: "DebugPrintLogits fp is_signed logits phase request_ids top_k p =
        Inr (p\<lparr>cout := cout p @ endl @ ''=== MLC DEBUG LOGITS ['' @ phase @ ''] ==='' @ endl
                     @ concat blocks
                     @ ''=== END DEBUG LOGITS ==='' @ endl @ endl,
                copies := Suc (copies p)\<rparr>)"
    and each: "\<And>i. i < length blocks \<Longrightarrow> \<exists>row stats.
         seq_logits_row (data logits) (int i) ?vs = Inr row \<and>
         length row = nat ?vs \<and>
         (if ?v then put_stats fp row ?vs = Inr stats else stats = []) \<and>
         blocks ! i =
           put_request_id request_ids (int i)
           @ concat (map (\<lambda>j. put_entry fp is_signed (DebugGetTokenizer p) ?v (int j)
                             (take ?n (sorted_token_logits top_k ?vs row) ! j))
                       [0..<?n])
           @ stats @ (if int i < shape logits ! 0 - 1 then endl else [])"
    by blast
  have entry: "put_entry fp is_signed (Some t) ?v j e =
      ''  ['' @ to_string j @ ''] token_id='' @ to_string (fst e)
        @ '' logit='' @ put_fixed4 fp (snd e)
        @ (if ?v
           then (case IdToToken t (fst e) of
                   Inl x \<Rightarrow> []
                 | Inr token_str \<Rightarrow>
                     '' token='' @ [CHR 0x22] @ escape_token is_signed token_str @ [CHR 0x22])
           else [])
        @ endl" for j e
    by (simp add: put_entry_def put_token_def defined_def Let_def)
  have "\<exists>row es lines stats.
         seq_logits_row (data logits) (int i) ?vs = Inr row \<and>
         es = take ?n (sorted_token_logits top_k ?vs row) \<and>
         (if ?v then put_stats fp row ?vs = Inr stats else stats = []) \<and>
         blocks ! i = put_request_id request_ids (int i) @ concat lines @ stats
                        @ (if int i < shape logits ! 0 - 1 then endl else []) \<and>
         length lines = ?n \<and>
         (\<forall>j < length lines.
            lines ! j =
              ''  ['' @ to_string (int j) @ ''] token_id='' @ to_string (fst (es ! j))
                @ '' logit='' @ put_fixed4 fp (snd (es ! j))
                @ (if ?v
                   then (case IdToToken t (fst (es ! j)) of
                           Inl x \<Rightarrow> []
                         | Inr token_str \<Rightarrow>
                             '' token='' @ [CHR 0x22] @ escape_token is_signed token_str @ [CHR 0x22])
                   else [])
                @ endl)"
    if i: "i < length blocks" for i
  proof -
    from each [OF i] obtain row stats where
      row: "seq_logits_row (data logits) (int i) ?vs = Inr row"
      and stats: "if ?v then put_stats fp row ?vs = Inr stats else stats = []"
      and blk: "blocks ! i =
           put_request_id request_ids (int i)
           @ concat (map (\<lambda>j. put_entry fp is_signed (DebugGetTokenizer p) ?v (int j)
                             (take ?n (sorted_token_logits top_k ?vs row) ! j))
                       [0..<?n])
           @ stats @ (if int i < shape logits ! 0 - 1 then endl else [])"
      by blast
    define es where "es = take ?n (sorted_token_logits top_k ?vs row)"
    define lines where "lines = map (\<lambda>j. put_entry fp is_signed (Some t) ?v (int j) (es ! j)) [0..<?n]"
    have l1: "length lines = ?n" by (simp add: lines_def)
    have l2: "lines ! j = ''  ['' @ to_string (int j) @ ''] token_id='' @ to_string (fst (es ! j))
                @ '' logit='' @ put_fixed4 fp (snd (es ! j))
                @ (if ?v
                   then (case IdToToken t (fst (es ! j)) of
                           Inl x \<Rightarrow> []
                         | Inr token_str \<Rightarrow>
                             '' token='' @ [CHR 0x22] @ escape_token is_signed token_str @ [CHR 0x22])
                   else [])
                @ endl" if "j < length lines" for j
      using that by (simp add: lines_def entry)
    have l3: "blocks ! i = put_request_id request_ids (int i) @ concat lines @ stats
                        @ (if int i < shape logits ! 0 - 1 then endl else [])"
      using blk by (simp add: lines_def es_def tok)
    from row stats l1 l2 l3 show ?thesis unfolding es_def by blast
  qed
  with len run show ?thesis by blast
qed

theorem decode_failure_is_absorbed_witness:
  "IsLogitDebugEnabled sample_process \<and>
   IsLogitDebugVerbose sample_process \<and>
   DebugGetTokenizer sample_process = Some sample_tokenizer \<and>
   wf_logits sample_logits \<and>
   IdToToken sample_tokenizer 1 = Inl (Exn ''unknown id'') \<and>
   DebugPrintLogits sample_binary32 True sample_logits ''PREFILL'' [''req-0''] 10 sample_process =
     Inr (sample_process
            \<lparr>cout := endl @ ''=== MLC DEBUG LOGITS [PREFILL] ==='' @ endl
                @ ''Request ID: req-0 (seq 0)'' @ endl
                @ ''  [0] token_id=1 logit=1073741824'' @ endl
                @ ''  [1] token_id=0 logit=1065353216 token='' @ [CHR 0x22] @ ''a'' @ [CHR 0x22] @ endl
                @ ''  Stats: max=1073741824 min=1065353216 mean=1069547520'' @ endl
                @ ''=== END DEBUG LOGITS ==='' @ endl @ endl,
              copies := 1\<rparr>)"
proof -
  let ?p = sample_process and ?t = sample_logits
  have en: "IsLogitDebugEnabled ?p"
    by (simp add: sample_process_def IsLogitDebugEnabled_def getenv_def startup_def
        DebugRegisterTokenizer_def)
  have v: "IsLogitDebugVerbose ?p"
    by (simp add: sample_process_def IsLogitDebugVerbose_def getenv_def startup_def
        DebugRegisterTokenizer_def)
  have tok: "DebugGetTokenizer ?p = Some sample_tokenizer"
    by (simp add: sample_process_def DebugGetTokenizer_def DebugRegisterTokenizer_def)
  have wf: "wf_logits ?t" by (simp add: wf_logits_def sample_logits_def)
  have k: "(0::int) \<le> 10" by simp
  have st: "IsLogitDebugVerbose ?p \<longrightarrow> 0 < shape ?t ! 1" by (simp add: sample_logits_def)
  have raise: "IdToToken sample_tokenizer 1 = Inl (Exn ''unknown id'')"
    by (simp add: sample_tokenizer_def)
  have ok: "IdToToken sample_tokenizer 0 = Inr ''a''" by (simp add: sample_tokenizer_def)
  have sh: "shape ?t ! 0 = 1" "shape ?t ! 1 = 2" "data ?t = [0x3F800000, 0x40000000]"
    by (simp_all add: sample_logits_def)
  have c0: "cout ?p = []" "copies ?p = 0"
    by (simp_all add: sample_process_def startup_def DebugRegisterTokenizer_def)
  have row: "seq_logits_row [0x3F800000, 0x40000000] 0 2 = Inr [0x3F800000, 0x40000000]"
    by (simp add: seq_logits_row_def)
  have es: "sorted_token_logits 10 2 [0x3F800000, 0x40000000] =
      [(1, 0x40000000), (0, 0x3F800000)]"
    by code_simp
  have stats: "put_stats sample_binary32 [0x3F800000, 0x40000000] 2 =
      Inr (''  Stats: max=1073741824 min=1065353216 mean=1069547520'' @ endl)"
    by code_simp
  have txt0: "to_string 0 = ''0''" "to_string 1 = ''1''"
    "put_fixed4 sample_binary32 0x40000000 = ''1073741824''"
    "put_fixed4 sample_binary32 0x3F800000 = ''1065353216''"
    "put_request_id [''req-0''] 0 = ''Request ID: req-0 (seq 0)'' @ endl"
    "escape_char True CHR ''a'' = ''a''"
    by code_simp+
  from decode_failure_is_absorbed [OF en tok wf k st,
      of sample_binary32 True "''PREFILL''" "[''req-0'']"]
  obtain blocks where len: "length blocks = nat (shape ?t ! 0)"
    and run: "DebugPrintLogits sample_binary32 True ?t ''PREFILL'' [''req-0''] 10 ?p =
        Inr (?p\<lparr>cout := cout ?p @ endl @ ''=== MLC DEBUG LOGITS ['' @ ''PREFILL'' @ ''] ==='' @ endl
                     @ concat blocks
                     @ ''=== END DEBUG LOGITS ==='' @ endl @ endl,
                copies := Suc (copies ?p)\<rparr>)"
    and each: "\<forall>i < length blocks. \<exists>row es lines stats.
         seq_logits_row (data ?t) (int i) (shape ?t ! 1) = Inr row \<and>
         es = take (nat (min 10 (shape ?t ! 1))) (sorted_token_logits 10 (shape ?t ! 1) row) \<and>
         (if IsLogitDebugVerbose ?p then put_stats sample_binary32 row (shape ?t ! 1) = Inr stats
          else stats = []) \<and>
         blocks ! i = put_request_id [''req-0''] (int i) @ concat lines @ stats
                        @ (if int i < shape ?t ! 0 - 1 then endl else []) \<and>
         length lines = nat (min 10 (shape ?t ! 1)) \<and>
         (\<forall>j < length lines.
            lines ! j =
              ''  ['' @ to_string (int j) @ ''] token_id='' @ to_string (fst (es ! j))
                @ '' logit='' @ put_fixed4 sample_binary32 (snd (es ! j))
                @ (if IsLogitDebugVerbose ?p
                   then (case IdToToken sample_tokenizer (fst (es ! j)) of
                           Inl x \<Rightarrow> []
                         | Inr token_str \<Rightarrow>
                             '' token='' @ [CHR 0x22] @ escape_token True token_str @ [CHR 0x22])
                   else [])
                @ endl)"
    by blast
  from len [unfolded sh] have len1: "length blocks = 1" by simp
  then have pos: "0 < length blocks" by simp
  from each [THEN spec, of 0, THEN mp, OF pos] obtain row es lines stats' where
    r: "seq_logits_row (data ?t) (int 0) (shape ?t ! 1) = Inr row"
    and e: "es = take (nat (min 10 (shape ?t ! 1))) (sorted_token_logits 10 (shape ?t ! 1) row)"
    and s: "if IsLogitDebugVerbose ?p then put_stats sample_binary32 row (shape ?t ! 1) = Inr stats'
          else stats' = []"
    and b: "blocks ! 0 = put_request_id [''req-0''] (int 0) @ concat lines @ stats'
                        @ (if int 0 < shape ?t ! 0 - 1 then endl else [])"
    and ll: "length lines = nat (min 10 (shape ?t ! 1))"
    and lall: "\<forall>j < length lines.
            lines ! j =
              ''  ['' @ to_string (int j) @ ''] token_id='' @ to_string (fst (es ! j))
                @ '' logit='' @ put_fixed4 sample_binary32 (snd (es ! j))
                @ (if IsLogitDebugVerbose ?p
                   then (case IdToToken sample_tokenizer (fst (es ! j)) of
                           Inl x \<Rightarrow> []
                         | Inr token_str \<Rightarrow>
                             '' token='' @ [CHR 0x22] @ escape_token True token_str @ [CHR 0x22])
                   else [])
                @ endl"
    by (elim exE conjE)
  note l = lall [unfolded e]
  note r = r [unfolded sh] and s = s [unfolded sh] and b = b [unfolded sh]
    and ll = ll [unfolded sh] and l = l [unfolded sh]
  from r row have rv: "row = [0x3F800000, 0x40000000]" by simp
  from s v stats have sv: "stats' = ''  Stats: max=1073741824 min=1065353216 mean=1069547520'' @ endl"
    by (simp add: rv)
  have ll2: "length lines = 2" using ll by simp
  have l0: "lines ! 0 = ''  [0] token_id=1 logit=1073741824'' @ endl"
    using l ll2 v raise by (simp add: rv es txt0)
  have l1: "lines ! 1 = ''  [1] token_id=0 logit=1065353216 token='' @ [CHR 0x22] @ ''a'' @ [CHR 0x22] @ endl"
    using l ll2 v ok by (simp add: rv es txt0)
  have lv: "lines = [lines ! 0, lines ! 1]" by (rule list_of_length_2 [OF ll2])
  have bv: "blocks = [blocks ! 0]" by (rule list_of_length_1 [OF len1])
  have b0: "blocks ! 0 = ''Request ID: req-0 (seq 0)'' @ endl
                @ ''  [0] token_id=1 logit=1073741824'' @ endl
                @ ''  [1] token_id=0 logit=1065353216 token='' @ [CHR 0x22] @ ''a'' @ [CHR 0x22] @ endl
                @ ''  Stats: max=1073741824 min=1065353216 mean=1069547520'' @ endl"
  proof -
    have "concat lines = lines ! 0 @ lines ! 1" by (subst lv) simp
    then have cl: "concat lines = ''  [0] token_id=1 logit=1073741824'' @ endl
        @ ''  [1] token_id=0 logit=1065353216 token='' @ [CHR 0x22] @ ''a'' @ [CHR 0x22] @ endl"
      by (simp only: l0 l1 append_assoc)
    show ?thesis unfolding b cl sv by (simp add: txt0)
  qed
  have "concat blocks = ''Request ID: req-0 (seq 0)'' @ endl
                @ ''  [0] token_id=1 logit=1073741824'' @ endl
                @ ''  [1] token_id=0 logit=1065353216 token='' @ [CHR 0x22] @ ''a'' @ [CHR 0x22] @ endl
                @ ''  Stats: max=1073741824 min=1065353216 mean=1069547520'' @ endl"
    by (subst bv) (simp add: b0)
  with run have "DebugPrintLogits sample_binary32 True ?t ''PREFILL'' [''req-0''] 10 ?p =
     Inr (?p\<lparr>cout := endl @ ''=== MLC DEBUG LOGITS [PREFILL] ==='' @ endl
                @ ''Request ID: req-0 (seq 0)'' @ endl
                @ ''  [0] token_id=1 logit=1073741824'' @ endl
                @ ''  [1] token_id=0 logit=1065353216 token='' @ [CHR 0x22] @ ''a'' @ [CHR 0x22] @ endl
                @ ''  Stats: max=1073741824 min=1065353216 mean=1069547520'' @ endl
                @ ''=== END DEBUG LOGITS ==='' @ endl @ endl,
              copies := 1\<rparr>)"
    by (simp add: c0)
  with en v tok wf raise show ?thesis by blast
qed

subsection \<open>The statistics line\<close>

text \<open>
  Claim C5. In verbose mode, for a well-formed tensor of a non-empty vocabulary, the block of
  every row ends with the statistics line (and the separator). Its max and min are scores
  of the full row and, when the row has no NaN, they bound every score of the row, so
  min \<open>\<le>\<close> max. Its mean is the sum of all \<open>vocab_size\<close> scores, accumulated from \<open>0\<close> in row
  order with the float addition, divided by \<open>vocab_size\<close> converted to a float.
\<close>

theorem stats_over_full_row:
  assumes v: "IsLogitDebugVerbose p" and wf: "wf_logits logits" and k: "0 \<le> top_k"
    and vp: "0 < shape logits ! 1"
  shows "\<exists>blocks.
      length blocks = nat (shape logits ! 0) \<and>
      DebugPrintLogits fp is_signed logits phase request_ids top_k p =
        Inr (p\<lparr>cout := cout p @ endl @ ''=== MLC DEBUG LOGITS ['' @ phase @ ''] ==='' @ endl
                     @ concat blocks
                     @ ''=== END DEBUG LOGITS ==='' @ endl @ endl,
                copies := Suc (copies p)\<rparr>) \<and>
      (\<forall>i < length blocks. \<exists>row mx mn.
         seq_logits_row (data logits) (int i) (shape logits ! 1) = Inr row \<and>
         length row = nat (shape logits ! 1) \<and>
         blocks ! i =
           put_request_id request_ids (int i)
           @ concat (map (\<lambda>j. put_entry fp is_signed (DebugGetTokenizer p) True (int j)
                             (take (nat (min top_k (shape logits ! 1)))
                                (sorted_token_logits top_k (shape logits ! 1) row) ! j))
                       [0..<nat (min top_k (shape logits ! 1))])
           @ ''  Stats: max='' @ put_fixed4 fp mx @ '' min='' @ put_fixed4 fp mn @ '' mean=''
           @ put_fixed4 fp (fdiv fp (foldl (fadd fp) 0 row) (f32_of_int fp (shape logits ! 1)))
           @ endl
           @ (if int i < shape logits ! 0 - 1 then endl else []) \<and>
         mx \<in> set row \<and> mn \<in> set row \<and>
         ((\<forall>x \<in> set row. \<not> isnan x) \<longrightarrow>
            (\<forall>x \<in> set row. f32_greater_eq mx x \<and> f32_greater_eq x mn)))"
proof -
  let ?vs = "shape logits ! 1"
  let ?n = "nat (min top_k ?vs)"
  have en: "IsLogitDebugEnabled p" using v
    by (simp add: IsLogitDebugEnabled_def IsLogitDebugVerbose_def split: option.splits)
  have st: "IsLogitDebugVerbose p \<longrightarrow> 0 < ?vs" using vp by simp
  from DebugPrintLogits_rows [OF en wf k st, of fp is_signed phase request_ids]
  obtain blocks where len: "length blocks = nat (shape logits ! 0)"
    and run: "DebugPrintLogits fp is_signed logits phase request_ids top_k p =
        Inr (p\<lparr>cout := cout p @ endl @ ''=== MLC DEBUG LOGITS ['' @ phase @ ''] ==='' @ endl
                     @ concat blocks
                     @ ''=== END DEBUG LOGITS ==='' @ endl @ endl,
                copies := Suc (copies p)\<rparr>)"
    and each: "\<And>i. i < length blocks \<Longrightarrow> \<exists>row stats.
         seq_logits_row (data logits) (int i) ?vs = Inr row \<and>
         length row = nat ?vs \<and>
         (if IsLogitDebugVerbose p then put_stats fp row ?vs = Inr stats else stats = []) \<and>
         blocks ! i =
           put_request_id request_ids (int i)
           @ concat (map (\<lambda>j. put_entry fp is_signed (DebugGetTokenizer p) (IsLogitDebugVerbose p) (int j)
                             (take ?n (sorted_token_logits top_k ?vs row) ! j))
                       [0..<?n])
           @ stats @ (if int i < shape logits ! 0 - 1 then endl else [])"
    by blast
  have "\<exists>row mx mn.
         seq_logits_row (data logits) (int i) ?vs = Inr row \<and>
         length row = nat ?vs \<and>
         blocks ! i =
           put_request_id request_ids (int i)
           @ concat (map (\<lambda>j. put_entry fp is_signed (DebugGetTokenizer p) True (int j)
                             (take ?n (sorted_token_logits top_k ?vs row) ! j))
                       [0..<?n])
           @ ''  Stats: max='' @ put_fixed4 fp mx @ '' min='' @ put_fixed4 fp mn @ '' mean=''
           @ put_fixed4 fp (fdiv fp (foldl (fadd fp) 0 row) (f32_of_int fp ?vs))
           @ endl
           @ (if int i < shape logits ! 0 - 1 then endl else []) \<and>
         mx \<in> set row \<and> mn \<in> set row \<and>
         ((\<forall>x \<in> set row. \<not> isnan x) \<longrightarrow>
            (\<forall>x \<in> set row. f32_greater_eq mx x \<and> f32_greater_eq x mn))"
    if i: "i < length blocks" for i
  proof -
    from each [OF i] v obtain row stats where
      row: "seq_logits_row (data logits) (int i) ?vs = Inr row" "length row = nat ?vs"
      and stats: "put_stats fp row ?vs = Inr stats"
      and blk: "blocks ! i =
           put_request_id request_ids (int i)
           @ concat (map (\<lambda>j. put_entry fp is_signed (DebugGetTokenizer p) True (int j)
                             (take ?n (sorted_token_logits top_k ?vs row) ! j))
                       [0..<?n])
           @ stats @ (if int i < shape logits ! 0 - 1 then endl else [])"
      by auto
    from row(2) vp have "row \<noteq> []" by auto
    from put_stats_text [OF this, of fp ?vs] obtain mx mn where
      s: "put_stats fp row ?vs =
           Inr (''  Stats: max='' @ put_fixed4 fp mx @ '' min='' @ put_fixed4 fp mn @ '' mean=''
                 @ put_fixed4 fp (fdiv fp (foldl (fadd fp) 0 row) (f32_of_int fp ?vs)) @ endl)"
      and m: "mx \<in> set row" "mn \<in> set row"
      and o: "(\<forall>x \<in> set row. \<not> isnan x) \<longrightarrow>
            (\<forall>x \<in> set row. f32_greater_eq mx x \<and> f32_greater_eq x mn)"
      by blast
    from s stats have "stats = ''  Stats: max='' @ put_fixed4 fp mx @ '' min='' @ put_fixed4 fp mn
        @ '' mean='' @ put_fixed4 fp (fdiv fp (foldl (fadd fp) 0 row) (f32_of_int fp ?vs)) @ endl"
      by simp
    with blk have "blocks ! i =
           put_request_id request_ids (int i)
           @ concat (map (\<lambda>j. put_entry fp is_signed (DebugGetTokenizer p) True (int j)
                             (take ?n (sorted_token_logits top_k ?vs row) ! j))
                       [0..<?n])
           @ ''  Stats: max='' @ put_fixed4 fp mx @ '' min='' @ put_fixed4 fp mn @ '' mean=''
           @ put_fixed4 fp (fdiv fp (foldl (fadd fp) 0 row) (f32_of_int fp ?vs))
           @ endl
           @ (if int i < shape logits ! 0 - 1 then endl else [])"
      by simp
    with row m o show ?thesis by blast
  qed
  with len run show ?thesis by blast
qed

theorem stats_over_full_row_witness:
  "IsLogitDebugVerbose verbose_process \<and>
   wf_logits sample_row \<and>
   DebugPrintLogits sample_binary32 True sample_row ''DECODE'' [] 1 verbose_process =
     Inr (verbose_process
            \<lparr>cout := endl @ ''=== MLC DEBUG LOGITS [DECODE] ==='' @ endl
                @ ''Request ID: unknown (seq 0)'' @ endl
                @ ''  [0] token_id=2 logit=1077936128'' @ endl
                @ ''  Stats: max=1077936128 min=1065353216 mean=1073741824'' @ endl
                @ ''=== END DEBUG LOGITS ==='' @ endl @ endl,
              copies := 1\<rparr>)"
proof -
  let ?p = verbose_process and ?t = sample_row
  let ?row = "[0x3F800000, 0x40000000, 0x40400000] :: f32 list"
  have v: "IsLogitDebugVerbose ?p"
    by (simp add: verbose_process_def IsLogitDebugVerbose_def getenv_def startup_def)
  have wf: "wf_logits ?t" by (simp add: wf_logits_def sample_row_def)
  have k: "(0::int) \<le> 1" by simp
  have sh: "shape ?t ! 0 = 1" "shape ?t ! 1 = 3" "data ?t = ?row"
    by (simp_all add: sample_row_def)
  have vp: "0 < shape ?t ! 1" unfolding sh by simp
  have c0: "cout ?p = []" "copies ?p = 0" "DebugGetTokenizer ?p = None"
    by (simp_all add: verbose_process_def startup_def DebugGetTokenizer_def Global_init_def)
  have row: "seq_logits_row ?row 0 3 = Inr ?row" by (simp add: seq_logits_row_def)
  have nn: "\<forall>x \<in> set ?row. \<not> isnan x" by (simp add: isnan_def magnitude_def)
  have entry: "put_entry sample_binary32 True None True 0 (sorted_token_logits 1 3 ?row ! 0) =
      ''  [0] token_id=2 logit=1077936128'' @ endl"
    by code_simp
  have mean: "fdiv sample_binary32 (foldl (fadd sample_binary32) 0 ?row) (f32_of_int sample_binary32 3)
      = 0x40000000"
    by code_simp
  have cmp: "\<not> f32_greater_eq 0x3F800000 0x40400000" "\<not> f32_greater_eq 0x40000000 0x40400000"
    "\<not> f32_greater_eq 0x3F800000 0x40000000" "\<not> f32_greater_eq 0x3F800000 0x40400000"
    by code_simp+
  have fmt: "put_fixed4 sample_binary32 0x40400000 = ''1077936128''"
    "put_fixed4 sample_binary32 0x3F800000 = ''1065353216''"
    "put_fixed4 sample_binary32 0x40000000 = ''1073741824''"
    "put_request_id [] 0 = ''Request ID: unknown (seq 0)'' @ endl"
    by code_simp+
  from stats_over_full_row [OF v wf k vp, of sample_binary32 True "''DECODE''" "[]"]
  obtain blocks where len: "length blocks = nat (shape ?t ! 0)"
    and run: "DebugPrintLogits sample_binary32 True ?t ''DECODE'' [] 1 ?p =
        Inr (?p\<lparr>cout := cout ?p @ endl @ ''=== MLC DEBUG LOGITS ['' @ ''DECODE'' @ ''] ==='' @ endl
                     @ concat blocks
                     @ ''=== END DEBUG LOGITS ==='' @ endl @ endl,
                copies := Suc (copies ?p)\<rparr>)"
    and each: "\<forall>i < length blocks. \<exists>row mx mn.
         seq_logits_row (data ?t) (int i) (shape ?t ! 1) = Inr row \<and>
         length row = nat (shape ?t ! 1) \<and>
         blocks ! i =
           put_request_id [] (int i)
           @ concat (map (\<lambda>j. put_entry sample_binary32 True (DebugGetTokenizer ?p) True (int j)
                             (take (nat (min 1 (shape ?t ! 1)))
                                (sorted_token_logits 1 (shape ?t ! 1) row) ! j))
                       [0..<nat (min 1 (shape ?t ! 1))])
           @ ''  Stats: max='' @ put_fixed4 sample_binary32 mx
           @ '' min='' @ put_fixed4 sample_binary32 mn @ '' mean=''
           @ put_fixed4 sample_binary32
               (fdiv sample_binary32 (foldl (fadd sample_binary32) 0 row)
                  (f32_of_int sample_binary32 (shape ?t ! 1)))
           @ endl
           @ (if int i < shape ?t ! 0 - 1 then endl else []) \<and>
         mx \<in> set row \<and> mn \<in> set row \<and>
         ((\<forall>x \<in> set row. \<not> isnan x) \<longrightarrow>
            (\<forall>x \<in> set row. f32_greater_eq mx x \<and> f32_greater_eq x mn))"
    by blast
  from len [unfolded sh] have len1: "length blocks = 1" by simp
  then have pos: "0 < length blocks" by simp
  from each [unfolded sh c0, THEN spec, of 0, THEN mp, OF pos] obtain r mx mn where
    r: "seq_logits_row ?row (int 0) 3 = Inr r"
    and b: "blocks ! 0 =
           put_request_id [] (int 0)
           @ concat (map (\<lambda>j. put_entry sample_binary32 True None True (int j)
                             (take (nat (min 1 3)) (sorted_token_logits 1 3 r) ! j))
                       [0..<nat (min 1 3)])
           @ ''  Stats: max='' @ put_fixed4 sample_binary32 mx
           @ '' min='' @ put_fixed4 sample_binary32 mn @ '' mean=''
           @ put_fixed4 sample_binary32
               (fdiv sample_binary32 (foldl (fadd sample_binary32) 0 r)
                  (f32_of_int sample_binary32 3))
           @ endl
           @ (if int 0 < 1 - 1 then endl else [])"
    and m: "mx \<in> set r" "mn \<in> set r"
    and o: "(\<forall>x \<in> set r. \<not> isnan x) \<longrightarrow>
            (\<forall>x \<in> set r. f32_greater_eq mx x \<and> f32_greater_eq x mn)"
    by (elim exE conjE)
  from r row have rv: "r = ?row" by simp
  from o nn have ord: "\<forall>x \<in> set ?row. f32_greater_eq mx x \<and> f32_greater_eq x mn"
    unfolding rv by blast
  have mxv: "mx = 0x40400000" using m(1) ord cmp unfolding rv by auto
  have mnv: "mn = 0x3F800000" using m(2) ord cmp unfolding rv by auto
  have b0: "blocks ! 0 = ''Request ID: unknown (seq 0)'' @ endl
                @ ''  [0] token_id=2 logit=1077936128'' @ endl
                @ ''  Stats: max=1077936128 min=1065353216 mean=1073741824'' @ endl"
    unfolding b rv mxv mnv mean by (simp add: entry fmt)
  have bv: "blocks = [blocks ! 0]" using len1 by (cases blocks) auto
  have "concat blocks = ''Request ID: unknown (seq 0)'' @ endl
                @ ''  [0] token_id=2 logit=1077936128'' @ endl
                @ ''  Stats: max=1077936128 min=1065353216 mean=1073741824'' @ endl"
    by (subst bv) (simp add: b0)
  with run have "DebugPrintLogits sample_binary32 True ?t ''DECODE'' [] 1 ?p =
     Inr (?p\<lparr>cout := endl @ ''=== MLC DEBUG LOGITS [DECODE] ==='' @ endl
                @ ''Request ID: unknown (seq 0)'' @ endl
                @ ''  [0] token_id=2 logit=1077936128'' @ endl
                @ ''  Stats: max=1077936128 min=1065353216 mean=1073741824'' @ endl
                @ ''=== END DEBUG LOGITS ==='' @ endl @ endl,
              copies := 1\<rparr>)"
    by (simp add: c0)
  with v wf show ?thesis by blast
qed

text \<open>
  The mean need not lie between min and max. With \<open>binary32\<close> arithmetic: for the row
  (NaN, 1.0) all three statistics are NaN, which compares with nothing; for the row of twice
  the largest finite float the sum overflows and the mean is infinite, above max; for ten
  scores 0.1 the sum is rounded up and the mean is the float after 0.1, above max.
\<close>

theorem stats_mean_not_between:
  "print_seq sample_binary32 True None True [] [0x7FC00000, 0x3F800000] 1 2 0 0 [] =
     Inr (put_request_id [] 0
          @ ''  Stats: max='' @ put_fixed4 sample_binary32 0x7FC00000
          @ '' min='' @ put_fixed4 sample_binary32 0x7FC00000
          @ '' mean='' @ put_fixed4 sample_binary32 0x7FC00000 @ endl) \<and>
   isnan 0x7FC00000 \<and>
   \<not> f32_greater_eq 0x7FC00000 0x7FC00000 \<and>
   print_seq sample_binary32 True None True [] [0x7F7FFFFF, 0x7F7FFFFF] 1 2 0 0 [] =
     Inr (put_request_id [] 0
          @ ''  Stats: max='' @ put_fixed4 sample_binary32 0x7F7FFFFF
          @ '' min='' @ put_fixed4 sample_binary32 0x7F7FFFFF
          @ '' mean='' @ put_fixed4 sample_binary32 0x7F800000 @ endl) \<and>
   \<not> isnan 0x7F7FFFFF \<and> \<not> isnan 0x7F800000 \<and>
   \<not> f32_greater_eq 0x7F7FFFFF 0x7F800000 \<and>
   print_seq sample_binary32 True None True []
       [0x3DCCCCCD, 0x3DCCCCCD, 0x3DCCCCCD, 0x3DCCCCCD, 0x3DCCCCCD,
        0x3DCCCCCD, 0x3DCCCCCD, 0x3DCCCCCD, 0x3DCCCCCD, 0x3DCCCCCD] 1 10 0 0 [] =
     Inr (put_request_id [] 0
          @ ''  Stats: max='' @ put_fixed4 sample_binary32 0x3DCCCCCD
          @ '' min='' @ put_fixed4 sample_binary32 0x3DCCCCCD
          @ '' mean='' @ put_fixed4 sample_binary32 0x3DCCCCCE @ endl) \<and>
   \<not> isnan 0x3DCCCCCD \<and> \<not> isnan 0x3DCCCCCE \<and>
   \<not> f32_greater_eq 0x3DCCCCCD 0x3DCCCCCE"
  by code_simp

end
